theory Spec2Isabelle
  imports Main "HOL-Library.AList"
begin

section \<open>Data model of \<open>scripts/connect_graph.py\<close>\<close>

text \<open>
  The script reads a CoNLL-U file, and for every sentence appends a \<open>0:root\<close> edge to the
  enhanced-dependencies field of the heads of the fragments it finds unreachable from ROOT.
  A token is the Python dict built by \<open>parse_sentence\<close> (field name to text, in insertion
  order); a sentence is the list of its tokens. Python dicts keep insertion order, so every
  dict is an association list with distinct keys: \<open>map_of\<close> reads a key, \<open>AList.update\<close>
  assigns one (in place when the key exists, at the end otherwise). Every exception the
  sentence loop of \<open>_read\<close> can raise is a value of \<open>py_error\<close>. The \<open>print\<close> and
  \<open>logger\<close> calls write to the console only and are left out.
\<close>

datatype py_error = KeyError | IndexError | AssertionError | NameError | ValueError

type_synonym token = "(string \<times> string) list"
type_synonym sentence = "token list"
type_synonym head_map = "(string \<times> string list) list"

definition FIELDS :: "string list" where
  "FIELDS = [''id'', ''form'', ''lemma'', ''upos'', ''xpos'', ''feats'', ''head'', ''deprel'',
             ''deps'', ''misc'']"

text \<open>The body of the loop of \<open>parse_sentence\<close>: \<open>{k: v for k, v in zip(FIELDS, line)}\<close>.\<close>

definition annotated_token :: "string list \<Rightarrow> token" where
  "annotated_token line = zip FIELDS line"

text \<open>\<open>x[k]\<close> on a token, and the list comprehension \<open>[x[k] for x in annotated_sentence]\<close>.\<close>

definition get_field :: "string \<Rightarrow> token \<Rightarrow> py_error + string" where
  "get_field k x = (case map_of x k of None \<Rightarrow> Inl KeyError | Some v \<Rightarrow> Inr v)"

fun get_fields :: "string \<Rightarrow> sentence \<Rightarrow> py_error + string list" where
  "get_fields k [] = Inr []"
| "get_fields k (x # xs) =
     (case get_field k x of
        Inl e \<Rightarrow> Inl e
      | Inr v \<Rightarrow> (case get_fields k xs of Inl e \<Rightarrow> Inl e | Inr vs \<Rightarrow> Inr (v # vs)))"

text \<open>\<open>s.split(sep)\<close> for a one-character separator: never empty, \<open>"".split(sep) == [""]\<close>.\<close>

fun split_str :: "char \<Rightarrow> string \<Rightarrow> string list" where
  "split_str sep [] = [[]]"
| "split_str sep (c # cs) =
     (if c = sep then [] # split_str sep cs
      else (c # hd (split_str sep cs)) # tl (split_str sep cs))"

text \<open>\<open>del inputs[i]\<close> for an index in range; callers check the range and raise otherwise.\<close>

definition del_at :: "nat \<Rightarrow> 'a list \<Rightarrow> 'a list" where
  "del_at i xs = take i xs @ drop (Suc i) xs"

section \<open>Head-set extraction\<close>

text \<open>
  \<open>convert_deps_to_nested_list\<close>: every \<open>|\<close>-separated entry contributes the text before
  its first \<open>:\<close>. \<open>current_heads\<close> is the body of its loop for one \<open>deps\<close> value.
\<close>

definition current_heads :: "string \<Rightarrow> string list" where
  "current_heads enhanced_dependency =
     (let split_deps = split_str CHR ''|'' enhanced_dependency in
      if length split_deps = 1 then [hd (split_str CHR '':'' (last split_deps))]
      else if length split_deps > 1 then map (\<lambda>split_dep. hd (split_str CHR '':'' split_dep)) split_deps
      else [])"

definition convert_deps_to_nested_list :: "string list \<Rightarrow> string list list" where
  "convert_deps_to_nested_list deps = map current_heads deps"

text \<open>
  \<open>clean_ids\<close> deletes from the list it is iterating over. Python's list iterator keeps an
  index: it stops when the index reaches the current length, and after a deletion at
  index \<open>i\<close> the next element visited is the one at \<open>i + 1\<close> of the shortened list.
\<close>

function clean_ids_from :: "nat \<Rightarrow> string list \<Rightarrow> string list" where
  "clean_ids_from i inputs =
     (if i < length inputs then
        (if CHR ''-'' \<in> set (inputs ! i) then clean_ids_from (Suc i) (del_at i inputs)
         else clean_ids_from (Suc i) inputs)
      else inputs)"
  by pat_completeness auto
termination
  by (relation "measure (\<lambda>(i, inputs). length inputs - i)") (auto simp: del_at_def)

declare clean_ids_from.simps [simp del]

definition clean_ids :: "string list \<Rightarrow> string list" where
  "clean_ids inputs = clean_ids_from 0 inputs"

text \<open>
  \<open>clean_eheads\<close>: the inner loop runs over the head list \<open>x_list\<close> fetched at index \<open>i\<close> and
  deletes \<open>inputs[i]\<close> once for every \<open>_\<close> in it; a deletion at an index that is no longer
  in range raises IndexError.
\<close>

fun del_null_heads :: "string list \<Rightarrow> nat \<Rightarrow> string list list \<Rightarrow> py_error + string list list" where
  "del_null_heads [] i inputs = Inr inputs"
| "del_null_heads (x # x_list) i inputs =
     (if x = ''_'' then
        (if i < length inputs then del_null_heads x_list i (del_at i inputs) else Inl IndexError)
      else del_null_heads x_list i inputs)"

lemma length_del_null_heads:
  "del_null_heads x_list i inputs = Inr inputs' \<Longrightarrow> length inputs' \<le> length inputs"
proof (induction x_list arbitrary: inputs)
  case Nil
  then show ?case by simp
next
  case (Cons x x_list)
  then show ?case
    by (fastforce simp: del_at_def split: if_splits)
qed

function clean_eheads_from :: "nat \<Rightarrow> string list list \<Rightarrow> py_error + string list list" where
  "clean_eheads_from i inputs =
     (if i < length inputs then
        (case del_null_heads (inputs ! i) i inputs of
           Inl e \<Rightarrow> Inl e
         | Inr inputs' \<Rightarrow> clean_eheads_from (Suc i) inputs')
      else Inr inputs)"
  by pat_completeness auto
termination
proof (relation "measure (\<lambda>(i, inputs). length inputs - i)")
  show "wf (measure (\<lambda>(i, inputs). length inputs - i))" by simp
next
  fix i :: nat and inputs inputs' :: "string list list"
  assume "i < length inputs" and "del_null_heads (inputs ! i) i inputs = Inr inputs'"
  then have "length inputs' \<le> length inputs" and "i < length inputs"
    using length_del_null_heads by blast+
  then show "((Suc i, inputs'), (i, inputs)) \<in> measure (\<lambda>(i, inputs). length inputs - i)"
    by simp
qed

declare clean_eheads_from.simps [simp del]

definition clean_eheads :: "string list list \<Rightarrow> py_error + string list list" where
  "clean_eheads inputs = clean_eheads_from 0 inputs"

text \<open>
  A loop whose body may raise: the state is threaded through the elements in order and
  the first exception ends the loop.
\<close>

fun fold_err :: "('a \<Rightarrow> 's \<Rightarrow> py_error + 's) \<Rightarrow> 'a list \<Rightarrow> 's \<Rightarrow> py_error + 's" where
  "fold_err f [] s = Inr s"
| "fold_err f (x # xs) s = (case f x s of Inl e \<Rightarrow> Inl e | Inr s' \<Rightarrow> fold_err f xs s')"

text \<open>\<open>d[k].append(v)\<close>: KeyError when the key is missing.\<close>

definition dict_append :: "'k \<Rightarrow> 'v \<Rightarrow> ('k \<times> 'v list) list \<Rightarrow> py_error + ('k \<times> 'v list) list" where
  "dict_append k v d =
     (case map_of d k of None \<Rightarrow> Inl KeyError | Some vs \<Rightarrow> Inr (AList.update k (vs @ [v]) d))"

text \<open>
  Lines 139 to 143: \<open>ids_to_heads = {conllu_id: [] for conllu_id in ids}\<close>, then every head
  of the list zipped with an id is appended to that id's entry.
\<close>

definition empty_heads :: "string list \<Rightarrow> head_map" where
  "empty_heads ids = fold (\<lambda>conllu_id d. AList.update conllu_id [] d) ids []"

definition fill_heads :: "string list \<Rightarrow> string list list \<Rightarrow> head_map \<Rightarrow> py_error + head_map" where
  "fill_heads ids enhanced_heads d =
     fold_err (\<lambda>(conllu_id, head_list) d.
                 fold_err (\<lambda>head d. dict_append conllu_id head d) head_list d)
       (zip ids enhanced_heads) d"

text \<open>Lines 126 to 143 of \<open>_read\<close>; the \<open>assert\<close> is the AssertionError.\<close>

definition ids_to_heads_of :: "sentence \<Rightarrow> py_error + head_map" where
  "ids_to_heads_of annotated_sentence =
     (case get_fields ''id'' annotated_sentence of Inl e \<Rightarrow> Inl e | Inr full_ids \<Rightarrow>
      (let ids = clean_ids full_ids in
       case get_fields ''head'' annotated_sentence of Inl e \<Rightarrow> Inl e | Inr heads \<Rightarrow>
       (case get_fields ''deprel'' annotated_sentence of Inl e \<Rightarrow> Inl e | Inr deprels \<Rightarrow>
        (case get_fields ''deps'' annotated_sentence of Inl e \<Rightarrow> Inl e | Inr deps \<Rightarrow>
         (case clean_eheads (convert_deps_to_nested_list deps) of Inl e \<Rightarrow> Inl e
          | Inr enhanced_heads \<Rightarrow>
            if length ids \<noteq> length enhanced_heads then Inl AssertionError
            else fill_heads ids enhanced_heads (empty_heads ids))))))"

section \<open>Reachability from ROOT\<close>

text \<open>
  Pass 1 (lines 151 to 155); \<open>find_root_in\<close> is its inner loop over the heads of one
  token. \<open>root_index\<close> is a local variable of \<open>_read\<close>, assigned only
  here: it is \<open>None\<close> while unassigned and keeps its value from one sentence to the next.
\<close>

definition find_root_in :: "string \<Rightarrow> string list \<Rightarrow> string list \<times> string option \<Rightarrow> string list \<times> string option" where
  "find_root_in token_id heads st =
     fold (\<lambda>head (nodes, root_index).
             if head = ''0'' then (nodes @ [token_id], Some token_id)
             else (nodes, root_index)) heads st"

definition find_root :: "head_map \<Rightarrow> string list \<times> string option \<Rightarrow> string list \<times> string option" where
  "find_root ids_to_heads st =
     fold (\<lambda>(token_id, heads) st. find_root_in token_id heads st) ids_to_heads st"

text \<open>Pass 2 (lines 158 to 161): reading an unassigned \<open>root_index\<close> is the NameError.\<close>

definition find_root_children_in :: "string option \<Rightarrow> string \<Rightarrow> string list \<Rightarrow> string list \<Rightarrow> py_error + string list" where
  "find_root_children_in root_index token_id heads nodes =
     fold_err (\<lambda>head nodes.
                 case root_index of
                   None \<Rightarrow> Inl NameError
                 | Some r \<Rightarrow> Inr (if head = r then nodes @ [token_id] else nodes))
       heads nodes"

definition find_root_children :: "head_map \<Rightarrow> string option \<Rightarrow> string list \<Rightarrow> py_error + string list" where
  "find_root_children ids_to_heads root_index nodes =
     fold_err (\<lambda>(token_id, heads) nodes. find_root_children_in root_index token_id heads nodes)
       ids_to_heads nodes"

text \<open>
  The loops of \<open>traverse_root_children\<close> (lines 34 to 38): \<open>visit_heads\<close> is the inner
  loop over the heads of one token, \<open>sweep\<close> the outer loop over the head map.
\<close>

definition visit_heads :: "string \<Rightarrow> string list \<Rightarrow> string list \<Rightarrow> string list" where
  "visit_heads token_id heads nodes =
     fold (\<lambda>head nodes.
             if head \<in> set nodes then
               (if token_id \<notin> set nodes then nodes @ [token_id] else nodes)
             else nodes) heads nodes"

definition sweep :: "head_map \<Rightarrow> string list \<Rightarrow> string list" where
  "sweep ids_to_heads nodes =
     fold (\<lambda>(token_id, heads) nodes. visit_heads token_id heads nodes) ids_to_heads nodes"

definition traverse_root_children :: "head_map \<Rightarrow> string list \<Rightarrow> bool \<Rightarrow> string list \<times> bool" where
  "traverse_root_children ids_to_heads nodes_reachable_from_root keep_searching_for_dependents =
     (let num_offspring_before = length nodes_reachable_from_root;
          nodes' = sweep ids_to_heads nodes_reachable_from_root;
          num_offspring_after = length nodes'
      in (nodes', if num_offspring_before = num_offspring_after then False
                  else keep_searching_for_dependents))"


text \<open>
  A sweep only appends to the list: what it appends are token ids of the head map that
  were not in the list, each once. This is what makes the \<open>while\<close> loop of \<open>_read\<close>
  terminate.
\<close>

lemma visit_heads_extends:
  "\<exists>ext. visit_heads token_id heads nodes = nodes @ ext
         \<and> distinct ext \<and> set ext \<subseteq> {token_id} - set nodes"
proof (induction heads arbitrary: nodes)
  case Nil
  then show ?case by (simp add: visit_heads_def)
next
  case (Cons h heads)
  show ?case
  proof (cases "h \<in> set nodes \<and> token_id \<notin> set nodes")
    case True
    from Cons.IH[of "nodes @ [token_id]"] obtain ext where
      e: "visit_heads token_id heads (nodes @ [token_id]) = (nodes @ [token_id]) @ ext"
         "set ext \<subseteq> {token_id} - set (nodes @ [token_id])"
      by blast
    from e(2) have "ext = []" by auto
    with e(1) True show ?thesis by (auto simp: visit_heads_def)
  next
    case False
    with Cons.IH[of nodes] show ?thesis by (auto simp: visit_heads_def)
  qed
qed

lemma sweep_Cons:
  "sweep ((t, hs) # hm) nodes = sweep hm (visit_heads t hs nodes)"
  by (simp add: sweep_def)

lemma sweep_extends:
  "\<exists>ext. sweep hm nodes = nodes @ ext \<and> distinct ext \<and> set ext \<subseteq> fst ` set hm - set nodes"
proof (induction hm arbitrary: nodes)
  case Nil
  then show ?case by (simp add: sweep_def)
next
  case (Cons p hm)
  obtain t hs where p: "p = (t, hs)" by (cases p)
  obtain e1 where e1: "visit_heads t hs nodes = nodes @ e1" "distinct e1"
      "set e1 \<subseteq> {t} - set nodes"
    using visit_heads_extends[of t hs nodes] by blast
  obtain e2 where e2: "sweep hm (nodes @ e1) = (nodes @ e1) @ e2" "distinct e2"
      "set e2 \<subseteq> fst ` set hm - set (nodes @ e1)"
    using Cons.IH[of "nodes @ e1"] by blast
  have "sweep (p # hm) nodes = nodes @ (e1 @ e2)"
    using e1(1) e2(1) by (simp add: sweep_Cons p)
  moreover have "distinct (e1 @ e2)" using e1(2) e2(2,3) by auto
  moreover have "set (e1 @ e2) \<subseteq> fst ` set (p # hm) - set nodes"
    using e1(3) e2(3) p by auto
  ultimately show ?case by blast
qed

lemma sweep_progress:
  assumes "length (sweep hm nodes) \<noteq> length nodes"
  shows "card (fst ` set hm - set (sweep hm nodes)) < card (fst ` set hm - set nodes)"
proof -
  obtain ext where e: "sweep hm nodes = nodes @ ext" "set ext \<subseteq> fst ` set hm - set nodes"
    using sweep_extends[of hm nodes] by blast
  with assms have "ext \<noteq> []" by auto
  then obtain x where x: "x \<in> set ext" by (cases ext) auto
  with e have "x \<in> fst ` set hm - set nodes" "x \<notin> fst ` set hm - set (sweep hm nodes)" by auto
  moreover have "fst ` set hm - set (sweep hm nodes) \<subseteq> fst ` set hm - set nodes"
    using e(1) by auto
  ultimately have "fst ` set hm - set (sweep hm nodes) \<subset> fst ` set hm - set nodes" by blast
  then show ?thesis by (intro psubset_card_mono) auto
qed

text \<open>
  The loop of lines 163 to 168: \<open>while keep_searching_for_dependents: ...\<close>, entered with
  the flag set.
\<close>

function search_for_dependents :: "head_map \<Rightarrow> string list \<Rightarrow> bool \<Rightarrow> string list" where
  "search_for_dependents ids_to_heads nodes keep_searching_for_dependents =
     (if keep_searching_for_dependents then
        (case traverse_root_children ids_to_heads nodes keep_searching_for_dependents of
           (nodes', keep') \<Rightarrow> search_for_dependents ids_to_heads nodes' keep')
      else nodes)"
  by pat_completeness auto
termination
proof (relation "measure (\<lambda>(hm, nodes, keep). card (fst ` set hm - set nodes) + (if keep then 1 else 0))")
  show "wf (measure (\<lambda>(hm, nodes, keep). card (fst ` set hm - set nodes) + (if keep then 1 else 0)))"
    by simp
next
  fix ids_to_heads :: head_map and nodes nodes' :: "string list" and keep keep' :: bool
  assume k: "keep" and t: "(nodes', keep') = traverse_root_children ids_to_heads nodes keep"
  have n: "nodes' = sweep ids_to_heads nodes"
    and k': "keep' = (length nodes \<noteq> length (sweep ids_to_heads nodes))"
    using t k by (auto simp: traverse_root_children_def Let_def)
  show "((ids_to_heads, nodes', keep'), (ids_to_heads, nodes, keep))
          \<in> measure (\<lambda>(hm, nodes, keep). card (fst ` set hm - set nodes) + (if keep then 1 else 0))"
  proof (cases keep')
    case True
    then show ?thesis using sweep_progress[of ids_to_heads nodes] n k k' by auto
  next
    case False
    then have "length (sweep ids_to_heads nodes) = length nodes" using k' by simp
    moreover obtain ext where "sweep ids_to_heads nodes = nodes @ ext"
      using sweep_extends[of ids_to_heads nodes] by blast
    ultimately have "sweep ids_to_heads nodes = nodes" by simp
    then show ?thesis using n k False by simp
  qed
qed

declare search_for_dependents.simps [simp del]

section \<open>Fragments of unreachable tokens\<close>

text \<open>Step 3 (lines 173 to 177): one entry per head that is neither \<open>0\<close> nor reachable.\<close>

definition find_unreachable :: "head_map \<Rightarrow> string list \<Rightarrow> string list" where
  "find_unreachable ids_to_heads nodes_reachable_from_root =
     fold (\<lambda>(token_id, heads) unreachable_nodes.
             fold (\<lambda>head unreachable_nodes.
                     if head \<noteq> ''0'' \<and> head \<notin> set nodes_reachable_from_root
                     then unreachable_nodes @ [token_id] else unreachable_nodes)
               heads unreachable_nodes)
       ids_to_heads []"

text \<open>\<open>d[k]\<close> on a dict.\<close>

definition dict_get :: "('k \<times> 'v) list \<Rightarrow> 'k \<Rightarrow> py_error + 'v" where
  "dict_get d k = (case map_of d k of None \<Rightarrow> Inl KeyError | Some v \<Rightarrow> Inr v)"

text \<open>
  Step 4, first loop (lines 186 to 190): every head of an unreachable node becomes a key
  of \<open>unreachable_head_fragments\<close>, with an empty list.
\<close>

definition init_fragments :: "head_map \<Rightarrow> string list \<Rightarrow> py_error + head_map" where
  "init_fragments ids_to_heads unreachable_nodes =
     fold_err (\<lambda>unreachable_node fragments.
                 case dict_get ids_to_heads unreachable_node of
                   Inl e \<Rightarrow> Inl e
                 | Inr unreachable_heads \<Rightarrow>
                     Inr (fold (\<lambda>unreachable_head fragments.
                                  AList.update unreachable_head [] fragments)
                            unreachable_heads fragments))
       unreachable_nodes []"

text \<open>
  Step 4, second loop (lines 192 to 200): the node is appended to the list of each of its
  heads; the \<open>else\<close> branch is the ValueError.
\<close>

definition fill_fragments :: "head_map \<Rightarrow> string list \<Rightarrow> head_map \<Rightarrow> py_error + head_map" where
  "fill_fragments ids_to_heads unreachable_nodes fragments =
     fold_err (\<lambda>unreachable_node fragments.
                 case dict_get ids_to_heads unreachable_node of
                   Inl e \<Rightarrow> Inl e
                 | Inr unreachable_heads \<Rightarrow>
                     fold_err (\<lambda>unreachable_head fragments.
                                 case map_of fragments unreachable_head of
                                   Some children \<Rightarrow>
                                     Inr (AList.update unreachable_head
                                            (children @ [unreachable_node]) fragments)
                                 | None \<Rightarrow> Inl ValueError)
                       unreachable_heads fragments)
       unreachable_nodes fragments"

definition unreachable_head_fragments :: "head_map \<Rightarrow> string list \<Rightarrow> py_error + head_map" where
  "unreachable_head_fragments ids_to_heads unreachable_nodes =
     (case init_fragments ids_to_heads unreachable_nodes of
        Inl e \<Rightarrow> Inl e
      | Inr fragments \<Rightarrow> fill_fragments ids_to_heads unreachable_nodes fragments)"

text \<open>
  Step 5 (lines 214 to 222). The inner loop has no \<open>break\<close>: \<open>del heads_of_fragments[i]\<close>
  runs once for every fragment whose children contain \<open>head_of_fragment\<close>, and raises
  IndexError once \<open>i\<close> is out of range. The outer loop iterates over the list that is
  being shortened, as \<open>clean_ids\<close> does.
\<close>

fun del_head_of_fragment :: "string \<Rightarrow> head_map \<Rightarrow> nat \<Rightarrow> string list \<Rightarrow> py_error + string list" where
  "del_head_of_fragment head_of_fragment [] i heads_of_fragments = Inr heads_of_fragments"
| "del_head_of_fragment head_of_fragment ((parent, children) # fragments) i heads_of_fragments =
     (if head_of_fragment \<in> set children then
        (if i < length heads_of_fragments
         then del_head_of_fragment head_of_fragment fragments i (del_at i heads_of_fragments)
         else Inl IndexError)
      else del_head_of_fragment head_of_fragment fragments i heads_of_fragments)"

lemma length_del_head_of_fragment:
  "del_head_of_fragment k fragments i hs = Inr hs' \<Longrightarrow> length hs' \<le> length hs"
proof (induction fragments arbitrary: hs)
  case Nil
  then show ?case by simp
next
  case (Cons p fragments)
  then show ?case
    by (cases p) (fastforce simp: del_at_def split: if_splits)
qed

function prune_heads_from :: "head_map \<Rightarrow> nat \<Rightarrow> string list \<Rightarrow> py_error + string list" where
  "prune_heads_from fragments i heads_of_fragments =
     (if i < length heads_of_fragments then
        (case del_head_of_fragment (heads_of_fragments ! i) fragments i heads_of_fragments of
           Inl e \<Rightarrow> Inl e
         | Inr heads_of_fragments' \<Rightarrow> prune_heads_from fragments (Suc i) heads_of_fragments')
      else Inr heads_of_fragments)"
  by pat_completeness auto
termination
proof (relation "measure (\<lambda>(fragments, i, hs). length hs - i)")
  show "wf (measure (\<lambda>(fragments :: head_map, i, hs :: string list). length hs - i))" by simp
next
  fix fragments :: head_map and i :: nat and hs hs' :: "string list"
  assume "i < length hs" and "del_head_of_fragment (hs ! i) fragments i hs = Inr hs'"
  then have "length hs' \<le> length hs" and "i < length hs"
    using length_del_head_of_fragment by blast+
  then show "((fragments, Suc i, hs'), (fragments, i, hs))
               \<in> measure (\<lambda>(fragments, i, hs). length hs - i)"
    by simp
qed

declare prune_heads_from.simps [simp del]

definition prune_heads :: "head_map \<Rightarrow> py_error + string list" where
  "prune_heads fragments = prune_heads_from fragments 0 (map fst fragments)"

text \<open>Lines 229 to 232: the surviving heads, each with its children.\<close>

definition populate_pruned_tree :: "head_map \<Rightarrow> string list \<Rightarrow> head_map" where
  "populate_pruned_tree fragments heads_of_fragments =
     fold (\<lambda>head_of_fragment pruned_tree.
             fold (\<lambda>(parent, children) pruned_tree.
                     if head_of_fragment = parent
                     then AList.update head_of_fragment children pruned_tree
                     else pruned_tree)
               fragments pruned_tree)
       heads_of_fragments []"

section \<open>Reattachment\<close>

definition root_edge :: string where
  "root_edge = ''0:root''"

text \<open>
  Lines 238 to 243: every token whose id is a key of \<open>pruned_tree\<close> gets \<open>|0:root\<close>
  appended to its \<open>deps\<close> field.
\<close>

fun add_root_edges :: "head_map \<Rightarrow> sentence \<Rightarrow> py_error + sentence" where
  "add_root_edges pruned_tree [] = Inr []"
| "add_root_edges pruned_tree (x # xs) =
     (case get_field ''id'' x of
        Inl e \<Rightarrow> Inl e
      | Inr conllu_id \<Rightarrow>
          if conllu_id \<in> set (map fst pruned_tree) then
            (case get_field ''deps'' x of
               Inl e \<Rightarrow> Inl e
             | Inr deps_object \<Rightarrow>
                 (case add_root_edges pruned_tree xs of
                    Inl e \<Rightarrow> Inl e
                  | Inr xs' \<Rightarrow>
                      Inr (AList.update ''deps'' (deps_object @ ''|'' @ root_edge) x # xs')))
          else
            (case add_root_edges pruned_tree xs of
               Inl e \<Rightarrow> Inl e
             | Inr xs' \<Rightarrow> Inr (x # xs')))"

section \<open>The sentence loop of \<open>_read\<close>\<close>

text \<open>
  Lines 148 to 168: the two initialisation passes and the loop, with the value
  \<open>root_index\<close> has afterwards. Then everything the loop body computes from the head
  map, in the order of the source.
\<close>

record analysis =
  root_index :: "string option"
  nodes_reachable_from_root :: "string list"
  unreachable_nodes :: "string list"
  fragments :: head_map
  heads_of_fragments :: "string list"
  pruned_tree :: head_map

definition initial_nodes :: "string option \<Rightarrow> head_map \<Rightarrow> py_error + (string list \<times> string option)" where
  "initial_nodes root_index0 ids_to_heads =
     (case find_root ids_to_heads ([], root_index0) of (roots, root_index1) \<Rightarrow>
      (case find_root_children ids_to_heads root_index1 roots of
         Inl e \<Rightarrow> Inl e
       | Inr nodes0 \<Rightarrow> Inr (nodes0, root_index1)))"

definition reachable_nodes :: "string option \<Rightarrow> head_map \<Rightarrow> py_error + (string list \<times> string option)" where
  "reachable_nodes root_index0 ids_to_heads =
     (case initial_nodes root_index0 ids_to_heads of
        Inl e \<Rightarrow> Inl e
      | Inr (nodes0, root_index1) \<Rightarrow>
          Inr (search_for_dependents ids_to_heads nodes0 True, root_index1))"

definition analyse :: "string option \<Rightarrow> head_map \<Rightarrow> py_error + analysis" where
  "analyse root_index0 ids_to_heads =
     (case reachable_nodes root_index0 ids_to_heads of
        Inl e \<Rightarrow> Inl e
      | Inr (nodes, root_index1) \<Rightarrow>
         (let unreachable = find_unreachable ids_to_heads nodes in
          case unreachable_head_fragments ids_to_heads unreachable of
            Inl e \<Rightarrow> Inl e
          | Inr frags \<Rightarrow>
            (case prune_heads frags of
               Inl e \<Rightarrow> Inl e
             | Inr hs \<Rightarrow>
                 Inr \<lparr>root_index = root_index1, nodes_reachable_from_root = nodes,
                      unreachable_nodes = unreachable, fragments = frags,
                      heads_of_fragments = hs,
                      pruned_tree = populate_pruned_tree frags hs\<rparr>)))"

text \<open>
  One iteration of the loop over the sentences: the repaired sentence and the value
  \<open>root_index\<close> has afterwards.
\<close>

definition process_sentence :: "string option \<Rightarrow> sentence \<Rightarrow> py_error + (sentence \<times> string option)" where
  "process_sentence root_index0 annotated_sentence =
     (case ids_to_heads_of annotated_sentence of
        Inl e \<Rightarrow> Inl e
      | Inr ids_to_heads \<Rightarrow>
        (case analyse root_index0 ids_to_heads of
           Inl e \<Rightarrow> Inl e
         | Inr a \<Rightarrow>
           (case add_root_edges (pruned_tree a) annotated_sentence of
              Inl e \<Rightarrow> Inl e
            | Inr s' \<Rightarrow> Inr (s', root_index a))))"

fun read_from :: "string option \<Rightarrow> sentence list \<Rightarrow> py_error + sentence list" where
  "read_from root_index0 [] = Inr []"
| "read_from root_index0 (s # ss) =
     (case process_sentence root_index0 s of
        Inl e \<Rightarrow> Inl e
      | Inr (s', root_index1) \<Rightarrow>
          (case read_from root_index1 ss of
             Inl e \<Rightarrow> Inl e
           | Inr conllu_annotations \<Rightarrow> Inr (s' # conllu_annotations)))"

text \<open>\<open>_read\<close> on the sentences of a file: \<open>root_index\<close> starts unassigned.\<close>

definition read_sentences :: "sentence list \<Rightarrow> py_error + sentence list" where
  "read_sentences sentences = read_from None sentences"

section \<open>Notions the properties are stated with\<close>

text \<open>
  A node list is closed under the head relation when every token of the head map with a
  head in the list is in the list.
\<close>

definition heads_closed :: "head_map \<Rightarrow> string list \<Rightarrow> bool" where
  "heads_closed ids_to_heads nodes =
     list_all (\<lambda>(token_id, heads). list_ex (\<lambda>head. head \<in> set nodes) heads \<longrightarrow> token_id \<in> set nodes)
       ids_to_heads"

text \<open>
  The state \<open>(nodes_reachable_from_root, keep_searching_for_dependents)\<close> after \<open>n\<close> calls of
  \<open>traverse_root_children\<close>, each on the result of the one before, as the loop makes them.
\<close>

definition sweeps :: "head_map \<Rightarrow> nat \<Rightarrow> string list \<times> bool \<Rightarrow> string list \<times> bool" where
  "sweeps ids_to_heads n st =
     ((\<lambda>(nodes, keep). traverse_root_children ids_to_heads nodes keep) ^^ n) st"

text \<open>The tokens with a head \<open>0\<close>, and the tokens with a given head.\<close>

definition roots_of :: "head_map \<Rightarrow> string set" where
  "roots_of hm = {t. \<exists>hs. (t, hs) \<in> set hm \<and> ''0'' \<in> set hs}"

definition children_of :: "head_map \<Rightarrow> string \<Rightarrow> string set" where
  "children_of hm r = {t. \<exists>hs. (t, hs) \<in> set hm \<and> r \<in> set hs}"

text \<open>The head map of a chain of three tokens below ROOT.\<close>

definition head_map1 :: head_map where
  "head_map1 = [(''1'', [''0'']), (''2'', [''1'']), (''3'', [''2''])]"

text \<open>
  A token id is reachable from ROOT when it is \<open>0\<close> or one of its heads is reachable.
\<close>

inductive reachable_from_root :: "head_map \<Rightarrow> string \<Rightarrow> bool" for ids_to_heads where
  root: "reachable_from_root ids_to_heads ''0''"
| edge: "(token_id, heads) \<in> set ids_to_heads \<Longrightarrow> head \<in> set heads \<Longrightarrow>
         reachable_from_root ids_to_heads head \<Longrightarrow> reachable_from_root ids_to_heads token_id"

code_pred reachable_from_root .

text \<open>
  The collapse pass would be minimal if no surviving key were a child in any fragment.
\<close>

definition fragment_minimal :: "head_map \<Rightarrow> string list \<Rightarrow> bool" where
  "fragment_minimal frags surviving =
     list_all (\<lambda>key. list_all (\<lambda>(parent, children). key \<notin> set children) frags) surviving"

text \<open>
  Head-set extraction as the specification words it: multi-word-token ids are discarded,
  placeholder heads are dropped, and the head lists that keep at least one head are
  counted against the ids that are kept.
\<close>

definition spec_retained_ids :: "string list \<Rightarrow> string list" where
  "spec_retained_ids ids = filter (\<lambda>conllu_id. CHR ''-'' \<notin> set conllu_id) ids"

definition spec_retained_heads :: "string list list \<Rightarrow> string list list" where
  "spec_retained_heads head_lists =
     filter (\<lambda>heads. heads \<noteq> []) (map (filter (\<lambda>head. head \<noteq> ''_'')) head_lists)"

definition spec_structural_mismatch :: "string list \<Rightarrow> string list \<Rightarrow> bool" where
  "spec_structural_mismatch full_ids deps =
     (length (spec_retained_heads (convert_deps_to_nested_list deps))
        \<noteq> length (spec_retained_ids full_ids))"

text \<open>
  Example sentences. \<open>token_line\<close> is a token line with the given id and
  enhanced-dependencies field; the other eight fields do not matter to the script.
\<close>

definition token_line :: "string \<Rightarrow> string \<Rightarrow> token" where
  "token_line conllu_id deps =
     annotated_token [conllu_id, ''w'', ''w'', ''X'', ''_'', ''_'', ''_'', ''_'', deps, ''_'']"

definition chain_sentence :: sentence where
  "chain_sentence = [token_line ''1'' ''0:root'', token_line ''2'' ''1:nsubj'', token_line ''3'' ''2:det'']"

definition dangling_head_sentence :: sentence where
  "dangling_head_sentence =
     [token_line ''1'' ''0:root'', token_line ''2'' ''1:nsubj'', token_line ''3'' ''5:obj'',
      token_line ''4'' ''3:amod'']"

definition dangling_head_map :: head_map where
  "dangling_head_map = [(''1'', [''0'']), (''2'', [''1'']), (''3'', [''5'']), (''4'', [''3''])]"

definition two_cycles_sentence :: sentence where
  "two_cycles_sentence =
     [token_line ''1'' ''0:root'', token_line ''2'' ''4:conj'', token_line ''3'' ''5:conj'',
      token_line ''4'' ''2:conj'', token_line ''5'' ''3:conj'']"

definition two_cycles_repaired :: sentence where
  "two_cycles_repaired =
     [token_line ''1'' ''0:root'', token_line ''2'' ''4:conj'', token_line ''3'' ''5:conj|0:root'',
      token_line ''4'' ''2:conj'', token_line ''5'' ''3:conj|0:root'']"

definition two_cycles_repaired_map :: head_map where
  "two_cycles_repaired_map =
     [(''1'', [''0'']), (''2'', [''4'']), (''3'', [''5'', ''0'']), (''4'', [''2'']),
      (''5'', [''3'', ''0''])]"

definition two_cycles_repaired_twice :: sentence where
  "two_cycles_repaired_twice =
     [token_line ''1'' ''0:root'', token_line ''2'' ''4:conj|0:root'',
      token_line ''3'' ''5:conj|0:root'', token_line ''4'' ''2:conj'',
      token_line ''5'' ''3:conj|0:root'']"

definition spurious_edge_sentence :: sentence where
  "spurious_edge_sentence =
     [token_line ''1'' ''0:root'', token_line ''2'' ''1:nsubj|3:conj'', token_line ''3'' ''4:conj'',
      token_line ''4'' ''3:conj'']"

definition spurious_edge_map :: head_map where
  "spurious_edge_map =
     [(''1'', [''0'']), (''2'', [''1'', ''3'']), (''3'', [''4'']), (''4'', [''3''])]"

definition spurious_edge_repaired :: sentence where
  "spurious_edge_repaired =
     [token_line ''1'' ''0:root|0:root'', token_line ''2'' ''1:nsubj|3:conj'',
      token_line ''3'' ''4:conj'', token_line ''4'' ''3:conj|0:root'']"

definition multiword_sentence :: sentence where
  "multiword_sentence =
     [token_line ''1-2'' ''_'', token_line ''1'' ''_'', token_line ''2'' ''0:root'']"

definition cycle_map :: head_map where
  "cycle_map = [(''1'', [''0'']), (''2'', [''3'']), (''3'', [''2''])]"

definition rootless_sentence :: sentence where
  "rootless_sentence = [token_line ''1'' ''2:conj'', token_line ''2'' ''1:conj'']"

text \<open>
  What the loop of lines 238 to 243 may do to one token, given the pruned tree: the field
  names and their order stay, every field but \<open>deps\<close> keeps its value, and \<open>deps\<close> gets
  \<open>|0:root\<close> appended exactly when the token's id is a key of the pruned tree.
\<close>

definition frame_at :: "head_map \<Rightarrow> token \<Rightarrow> token \<Rightarrow> bool" where
  "frame_at pt x x' \<longleftrightarrow>
     map fst x' = map fst x
     \<and> (\<forall>k. k \<noteq> ''deps'' \<longrightarrow> map_of x' k = map_of x k)
     \<and> (\<exists>cid d. map_of x ''id'' = Some cid
           \<and> map_of x ''deps'' = Some d
           \<and> map_of x' ''deps'' = Some (if cid \<in> fst ` set pt then d @ ''|0:root'' else d))"

text \<open>
  The \<open>(token_id, head)\<close> pairs of a head map, in the order in which the loops over
  \<open>ids_to_heads.items()\<close> and \<open>heads\<close> visit them.
\<close>

definition edge_pairs :: "head_map \<Rightarrow> (string \<times> string) list" where
  "edge_pairs ids_to_heads =
     concat (map (\<lambda>(token_id, heads). map (\<lambda>head. (token_id, head)) heads) ids_to_heads)"

text \<open>
  The closure of a set of start nodes under a set of \<open>(token_id, head)\<close> edges: a token is
  in it when it is a start node or one of its heads is in it.
\<close>

inductive reaches :: "(string \<times> string) set \<Rightarrow> string set \<Rightarrow> string \<Rightarrow> bool"
  for E :: "(string \<times> string) set" and I :: "string set" where
  start: "x \<in> I \<Longrightarrow> reaches E I x"
| follow: "(t, h) \<in> E \<Longrightarrow> reaches E I h \<Longrightarrow> reaches E I t"

text \<open>
  What the two passes and the loop compute, as a function of the edge set and of the
  value of \<open>root_index\<close> on entry alone.
\<close>

definition closure_from_root :: "(string \<times> string) set \<Rightarrow> string option \<Rightarrow> py_error + string set" where
  "closure_from_root E ri =
     (if {t. (t, ''0'') \<in> E} = {} then
        (case ri of
           None \<Rightarrow> if E = {} then Inr {} else Inl NameError
         | Some r \<Rightarrow> Inr {x. reaches E {t. (t, r) \<in> E} x})
      else Inr {x. reaches E {t. (t, ''0'') \<in> E} x})"

text \<open>Two head maps that list the same tokens under ROOT in different orders.\<close>

definition two_roots_map :: head_map where
  "two_roots_map = [(''1'', [''0'']), (''2'', [''0'']), (''3'', [''1''])]"

definition two_roots_map_reordered :: head_map where
  "two_roots_map_reordered = [(''3'', [''1'']), (''2'', [''0'']), (''1'', [''0''])]"

text \<open>
  The number of fragments whose children contain a key, which is the number of times the
  inner loop of the collapse pass deletes for that key; a key is a child when there is
  such a fragment.
\<close>

definition hits :: "head_map \<Rightarrow> string \<Rightarrow> nat" where
  "hits frags key = length (filter (\<lambda>(parent, children). key \<in> set children) frags)"

definition is_child :: "head_map \<Rightarrow> string \<Rightarrow> bool" where
  "is_child frags key = list_ex (\<lambda>(parent, children). key \<in> set children) frags"

text \<open>The analysis of a sentence with a two-token cycle beside the root.\<close>

definition cycle_analysis :: analysis where
  "cycle_analysis =
     \<lparr>root_index = Some ''1'', nodes_reachable_from_root = [''1''],
      unreachable_nodes = [''2'', ''3''],
      fragments = [(''3'', [''2'']), (''2'', [''3''])],
      heads_of_fragments = [''2''],
      pruned_tree = [(''2'', [''3''])]\<rparr>"

text \<open>
  The keys the collapse pass examines: the values \<open>head_of_fragment\<close> takes in the outer
  loop of lines 214 to 222, in order (\<open>hs\<close> is \<open>heads_of_fragments\<close>, \<open>frags\<close> is
  \<open>unreachable_head_fragments\<close>). The recursion is that of \<open>prune_heads_from\<close>; a key that
  the deletion on the fly moves below the loop index is not among them.
\<close>

function examined_from :: "head_map \<Rightarrow> nat \<Rightarrow> string list \<Rightarrow> string list" where
  "examined_from frags i hs =
     (if i < length hs then
        (case del_head_of_fragment (hs ! i) frags i hs of
           Inl e \<Rightarrow> [hs ! i]
         | Inr hs' \<Rightarrow>
             hs ! i # examined_from frags (Suc i) hs')
      else [])"
  by pat_completeness auto
termination
proof (relation "measure (\<lambda>(frags, i, hs). length hs - i)")
  show "wf (measure (\<lambda>(frags :: head_map, i, hs :: string list). length hs - i))" by simp
next
  fix frags :: head_map and i :: nat and hs hs' :: "string list"
  assume "i < length hs" and "del_head_of_fragment (hs ! i) frags i hs = Inr hs'"
  then have "length hs' \<le> length hs" and "i < length hs"
    using length_del_head_of_fragment by blast+
  then show "((frags, Suc i, hs'), (frags, i, hs))
               \<in> measure (\<lambda>(frags, i, hs). length hs - i)"
    by simp
qed

declare examined_from.simps [simp del]

definition examined_heads :: "head_map \<Rightarrow> string list" where
  "examined_heads frags = examined_from frags 0 (map fst frags)"

text \<open>The analysis of the sentence whose token 2 has a reachable and an unreachable head.\<close>

definition spurious_edge_analysis :: analysis where
  "spurious_edge_analysis =
     \<lparr>root_index = Some ''1'', nodes_reachable_from_root = [''1'', ''2''],
      unreachable_nodes = [''2'', ''3'', ''4''],
      fragments = [(''1'', [''2'']), (''3'', [''2'', ''4'']), (''4'', [''3''])],
      heads_of_fragments = [''1'', ''4''],
      pruned_tree = [(''1'', [''2'']), (''4'', [''3''])]\<rparr>"

definition rootless_map :: head_map where
  "rootless_map = [(''1'', [''2'']), (''2'', [''1''])]"

section \<open>Auxiliary facts\<close>

subsection \<open>The sweep and the loop\<close>

lemma heads_closed_iff:
  "heads_closed hm nodes \<longleftrightarrow>
     (\<forall>t hs h. (t, hs) \<in> set hm \<and> h \<in> set hs \<and> h \<in> set nodes \<longrightarrow> t \<in> set nodes)"
  by (auto simp: heads_closed_def list_all_iff list_ex_iff)

lemma visit_heads_adds:
  "h \<in> set hs \<Longrightarrow> h \<in> set nodes \<Longrightarrow> t \<in> set (visit_heads t hs nodes)"
proof (induction hs arbitrary: nodes)
  case Nil
  then show ?case by simp
next
  case (Cons a hs)
  let ?n1 = "visit_heads t [a] nodes"
  have step: "visit_heads t (a # hs) nodes = visit_heads t hs ?n1"
    by (simp add: visit_heads_def)
  obtain e where e: "visit_heads t hs ?n1 = ?n1 @ e"
    using visit_heads_extends[of t hs ?n1] by blast
  show ?case
  proof (cases "h = a")
    case True
    with Cons.prems have "t \<in> set ?n1" by (simp add: visit_heads_def)
    then show ?thesis using step e by simp
  next
    case False
    with Cons.prems have "h \<in> set hs" by simp
    moreover have "h \<in> set ?n1" using Cons.prems(2) by (simp add: visit_heads_def)
    ultimately show ?thesis using Cons.IH[of ?n1] step by simp
  qed
qed

lemma sweep_adds:
  "(t, hs) \<in> set hm \<Longrightarrow> h \<in> set hs \<Longrightarrow> h \<in> set nodes \<Longrightarrow> t \<in> set (sweep hm nodes)"
proof (induction hm arbitrary: nodes)
  case Nil
  then show ?case by simp
next
  case (Cons p hm)
  obtain t' hs' where p: "p = (t', hs')" by (cases p)
  let ?n1 = "visit_heads t' hs' nodes"
  have step: "sweep (p # hm) nodes = sweep hm ?n1" by (simp add: p sweep_Cons)
  obtain e1 where e1: "?n1 = nodes @ e1" using visit_heads_extends[of t' hs' nodes] by blast
  obtain e2 where e2: "sweep hm ?n1 = ?n1 @ e2" using sweep_extends[of hm ?n1] by blast
  show ?case
  proof (cases "(t, hs) = p")
    case True
    then have "t \<in> set ?n1" using visit_heads_adds[OF Cons.prems(2,3)] p by simp
    then show ?thesis using step e2 by simp
  next
    case False
    then have "(t, hs) \<in> set hm" using Cons.prems(1) by simp
    moreover have "h \<in> set ?n1" using Cons.prems(3) e1 by simp
    ultimately show ?thesis using Cons.IH[of ?n1] Cons.prems(2) step by simp
  qed
qed

lemma sweep_fixed_closed:
  assumes "length (sweep hm nodes) = length nodes"
  shows "sweep hm nodes = nodes" and "heads_closed hm nodes"
proof -
  obtain ext where "sweep hm nodes = nodes @ ext"
    using sweep_extends[of hm nodes] by blast
  with assms show eq: "sweep hm nodes = nodes" by simp
  show "heads_closed hm nodes"
    unfolding heads_closed_iff using sweep_adds[of _ _ hm _ nodes] eq by auto
qed

lemma traverse_fst: "fst (traverse_root_children hm nodes keep) = sweep hm nodes"
  by (simp add: traverse_root_children_def Let_def)

lemma traverse_snd:
  "snd (traverse_root_children hm nodes keep) = (keep \<and> length (sweep hm nodes) \<noteq> length nodes)"
  by (auto simp: traverse_root_children_def Let_def)

lemma sweeps_0: "sweeps hm 0 st = st"
  by (simp add: sweeps_def)

lemma sweeps_Suc:
  "sweeps hm (Suc n) (nodes, keep) = sweeps hm n (traverse_root_children hm nodes keep)"
  by (simp add: sweeps_def funpow_swap1)

lemma search_unfold_True:
  "search_for_dependents hm nodes True =
     search_for_dependents hm (sweep hm nodes) (length (sweep hm nodes) \<noteq> length nodes)"
  by (subst search_for_dependents.simps) (auto simp: traverse_root_children_def Let_def)

lemma search_False: "search_for_dependents hm nodes False = nodes"
  by (subst search_for_dependents.simps) simp

lemma search_as_sweeps:
  "\<exists>n. n \<le> Suc (card (fst ` set hm - set nodes))
       \<and> sweeps hm n (nodes, True) = (search_for_dependents hm nodes True, False)
       \<and> (\<forall>m<n. snd (sweeps hm m (nodes, True)))
       \<and> heads_closed hm (search_for_dependents hm nodes True)
       \<and> (\<exists>ext. search_for_dependents hm nodes True = nodes @ ext)"
proof (induction "card (fst ` set hm - set nodes)" arbitrary: nodes rule: less_induct)
  case less
  show ?case
  proof (cases "length (sweep hm nodes) = length nodes")
    case True
    note fx = sweep_fixed_closed[OF True]
    have t: "traverse_root_children hm nodes True = (nodes, False)"
      using fx(1) by (simp add: traverse_root_children_def Let_def)
    have s: "search_for_dependents hm nodes True = nodes"
      using True fx(1) by (simp add: search_unfold_True search_False)
    have "sweeps hm (Suc 0) (nodes, True) = (nodes, False)"
      by (simp add: sweeps_Suc sweeps_0 t)
    moreover have "\<forall>m<Suc 0. snd (sweeps hm m (nodes, True))"
      by (simp add: sweeps_0)
    ultimately show ?thesis using s fx(2) by (intro exI[of _ "Suc 0"]) simp
  next
    case False
    let ?n1 = "sweep hm nodes"
    have t: "traverse_root_children hm nodes True = (?n1, True)"
      using False by (simp add: traverse_root_children_def Let_def)
    have s: "search_for_dependents hm nodes True = search_for_dependents hm ?n1 True"
      using False by (subst search_unfold_True) simp
    have c: "card (fst ` set hm - set ?n1) < card (fst ` set hm - set nodes)"
      using sweep_progress[OF False] .
    from less[OF c] obtain n where n: "n \<le> Suc (card (fst ` set hm - set ?n1))"
      "sweeps hm n (?n1, True) = (search_for_dependents hm ?n1 True, False)"
      "\<forall>m<n. snd (sweeps hm m (?n1, True))"
      "heads_closed hm (search_for_dependents hm ?n1 True)"
      "\<exists>ext. search_for_dependents hm ?n1 True = ?n1 @ ext"
      by blast
    obtain e1 where e1: "?n1 = nodes @ e1" using sweep_extends[of hm nodes] by blast
    have "Suc n \<le> Suc (card (fst ` set hm - set nodes))" using n(1) c by simp
    moreover have "sweeps hm (Suc n) (nodes, True) = (search_for_dependents hm nodes True, False)"
      using n(2) by (simp add: sweeps_Suc t s)
    moreover have "\<forall>m<Suc n. snd (sweeps hm m (nodes, True))"
    proof (intro allI impI)
      fix m assume "m < Suc n"
      then show "snd (sweeps hm m (nodes, True))"
        using n(3) by (cases m) (auto simp: sweeps_0 sweeps_Suc t)
    qed
    moreover have "heads_closed hm (search_for_dependents hm nodes True)"
      using n(4) s by simp
    moreover have "\<exists>ext. search_for_dependents hm nodes True = nodes @ ext"
      using n(5) e1 s by auto
    ultimately show ?thesis by blast
  qed
qed

subsection \<open>The two initialisation passes\<close>

lemma find_root_in_eq:
  "find_root_in t hs (nodes, ri) =
     (nodes @ replicate (length (filter (\<lambda>h. h = ''0'') hs)) t,
      if ''0'' \<in> set hs then Some t else ri)"
proof (induction hs arbitrary: nodes ri)
  case Nil
  then show ?case by (simp add: find_root_in_def)
next
  case (Cons h hs)
  have "find_root_in t (h # hs) (nodes, ri) =
          find_root_in t hs (if h = ''0'' then (nodes @ [t], Some t) else (nodes, ri))"
    by (simp add: find_root_in_def)
  then show ?case using Cons.IH by (auto simp: replicate_app_Cons_same)
qed

lemma find_root_set:
  "set (fst (find_root hm (nodes, ri))) = set nodes \<union> roots_of hm"
proof (induction hm arbitrary: nodes ri)
  case Nil
  then show ?case by (simp add: find_root_def roots_of_def)
next
  case (Cons p hm)
  obtain t hs where p: "p = (t, hs)" by (cases p)
  have "find_root (p # hm) (nodes, ri) = find_root hm (find_root_in t hs (nodes, ri))"
    by (simp add: find_root_def p)
  then have "set (fst (find_root (p # hm) (nodes, ri))) =
      set (nodes @ replicate (length (filter (\<lambda>h. h = ''0'') hs)) t) \<union> roots_of hm"
    using Cons.IH by (simp add: find_root_in_eq)
  moreover have "roots_of (p # hm) = (if ''0'' \<in> set hs then {t} else {}) \<union> roots_of hm"
    by (auto simp: roots_of_def p)
  moreover have "set (replicate (length (filter (\<lambda>h. h = ''0'') hs)) t) =
      (if ''0'' \<in> set hs then {t} else {})"
    by (auto simp: filter_empty_conv)
  ultimately show ?case by auto
qed

lemma find_root_index:
  "snd (find_root hm (nodes, ri)) = ri \<and> roots_of hm = {}
   \<or> (\<exists>r \<in> roots_of hm. snd (find_root hm (nodes, ri)) = Some r)"
proof (induction hm arbitrary: nodes ri rule: rev_induct)
  case Nil
  then show ?case by (simp add: find_root_def roots_of_def)
next
  case (snoc p hm)
  obtain t hs where p: "p = (t, hs)" by (cases p)
  obtain n1 r1 where f: "find_root hm (nodes, ri) = (n1, r1)" by (cases "find_root hm (nodes, ri)")
  have step: "find_root (hm @ [p]) (nodes, ri) = find_root_in t hs (n1, r1)"
    by (simp add: find_root_def p f[unfolded find_root_def])
  have r: "roots_of (hm @ [p]) = roots_of hm \<union> (if ''0'' \<in> set hs then {t} else {})"
    by (auto simp: roots_of_def p)
  show ?case
  proof (cases "''0'' \<in> set hs")
    case True
    then show ?thesis using step r by (simp add: find_root_in_eq)
  next
    case False
    then have "snd (find_root (hm @ [p]) (nodes, ri)) = r1"
      using step by (simp add: find_root_in_eq)
    moreover have "roots_of (hm @ [p]) = roots_of hm" using r False by simp
    ultimately show ?thesis using snoc.IH[of nodes ri] f by simp
  qed
qed

lemma find_root_children_in_Some:
  "find_root_children_in (Some r) t hs nodes =
     Inr (nodes @ replicate (length (filter (\<lambda>h. h = r) hs)) t)"
proof (induction hs arbitrary: nodes)
  case Nil
  then show ?case by (simp add: find_root_children_in_def)
next
  case (Cons h hs)
  have "find_root_children_in (Some r) t (h # hs) nodes =
          find_root_children_in (Some r) t hs (if h = r then nodes @ [t] else nodes)"
    by (simp add: find_root_children_in_def)
  then show ?case using Cons.IH by (auto simp: replicate_app_Cons_same)
qed

lemma find_root_children_in_None:
  "find_root_children_in None t hs nodes = (if hs = [] then Inr nodes else Inl NameError)"
  by (cases hs) (simp_all add: find_root_children_in_def)

lemma find_root_children_Some:
  "\<exists>nodes'. find_root_children hm (Some r) nodes = Inr nodes'
          \<and> set nodes' = set nodes \<union> children_of hm r"
proof (induction hm arbitrary: nodes)
  case Nil
  then show ?case by (simp add: find_root_children_def children_of_def)
next
  case (Cons p hm)
  obtain t hs where p: "p = (t, hs)" by (cases p)
  let ?n1 = "nodes @ replicate (length (filter (\<lambda>h. h = r) hs)) t"
  have step: "find_root_children (p # hm) (Some r) nodes = find_root_children hm (Some r) ?n1"
    by (simp add: find_root_children_def p find_root_children_in_Some)
  obtain nodes' where n: "find_root_children hm (Some r) ?n1 = Inr nodes'"
      "set nodes' = set ?n1 \<union> children_of hm r"
    using Cons.IH[of ?n1] by blast
  have "children_of (p # hm) r = (if r \<in> set hs then {t} else {}) \<union> children_of hm r"
    by (auto simp: children_of_def p)
  moreover have "set (replicate (length (filter (\<lambda>h. h = r) hs)) t) =
      (if r \<in> set hs then {t} else {})"
    by (auto simp: filter_empty_conv)
  ultimately have "set nodes' = set nodes \<union> children_of (p # hm) r" using n(2) by auto
  then show ?case using step n(1) by simp
qed

lemma find_root_children_None:
  "find_root_children hm None nodes =
     (if \<forall>(t, hs) \<in> set hm. hs = [] then Inr nodes else Inl NameError)"
proof (induction hm)
  case Nil
  then show ?case by (simp add: find_root_children_def)
next
  case (Cons p hm)
  obtain t hs where p: "p = (t, hs)" by (cases p)
  show ?case
  proof (cases "hs = []")
    case True
    then have "find_root_children (p # hm) None nodes = find_root_children hm None nodes"
      by (simp add: find_root_children_def p find_root_children_in_None)
    then show ?thesis using Cons.IH True p by simp
  next
    case False
    then show ?thesis by (simp add: find_root_children_def p find_root_children_in_None)
  qed
qed

lemma roots_of_keys: "roots_of hm \<subseteq> fst ` set hm"
  by (force simp: roots_of_def)

lemma children_of_keys: "children_of hm r \<subseteq> fst ` set hm"
  by (force simp: children_of_def)

lemma initial_nodes_keys:
  assumes "initial_nodes ri hm = Inr (nodes0, ri1)"
  shows "set nodes0 \<subseteq> fst ` set hm"
proof -
  obtain roots r1 where f: "find_root hm ([], ri) = (roots, r1)"
    by (cases "find_root hm ([], ri)")
  have rs: "set roots = roots_of hm" using find_root_set[of hm "[]" ri] f by simp
  from assms f have c: "find_root_children hm r1 roots = Inr nodes0"
    by (auto simp: initial_nodes_def split: sum.splits)
  show ?thesis
  proof (cases r1)
    case None
    with c have "nodes0 = roots"
      by (auto simp: find_root_children_None split: if_splits)
    then show ?thesis using rs roots_of_keys by auto
  next
    case (Some r)
    then have "set nodes0 = set roots \<union> children_of hm r"
      using find_root_children_Some[of hm r roots] c by auto
    then show ?thesis using rs roots_of_keys children_of_keys by auto
  qed
qed

lemma visit_heads_Nil: "visit_heads t hs [] = []"
  by (induction hs) (simp_all add: visit_heads_def)

lemma sweep_Nil: "sweep hm [] = []"
  by (induction hm) (auto simp: sweep_def visit_heads_Nil)

lemma search_stable:
  assumes "length (sweep hm nodes) = length nodes"
  shows "sweeps hm (Suc 0) (nodes, True) = (search_for_dependents hm nodes True, False)"
proof -
  have "sweep hm nodes = nodes" using sweep_fixed_closed(1)[OF assms] .
  then show ?thesis
    using assms
    by (simp add: sweeps_Suc sweeps_0 traverse_root_children_def Let_def
        search_unfold_True search_False)
qed

subsection \<open>Reachability in the example head maps\<close>

lemma dangling_reach:
  "reachable_from_root hm x \<Longrightarrow> hm = dangling_head_map \<Longrightarrow> x \<in> {''0'', ''1'', ''2''}"
  by (induction rule: reachable_from_root.induct) (auto simp: dangling_head_map_def)

lemma two_cycles_reach:
  "reachable_from_root hm x \<Longrightarrow> hm = two_cycles_repaired_map \<Longrightarrow> x \<in> {''0'', ''1'', ''3'', ''5''}"
  by (induction rule: reachable_from_root.induct) (auto simp: two_cycles_repaired_map_def)

lemma rootless_reach:
  "reachable_from_root hm x \<Longrightarrow> hm = rootless_map \<Longrightarrow> x = ''0''"
  by (induction rule: reachable_from_root.induct) (auto simp: rootless_map_def)

subsection \<open>The reattachment loop\<close>

lemma add_root_edges_Cons_Inr:
  assumes "add_root_edges pt (x # xs) = Inr s'"
  shows "\<exists>cid xs'. map_of x ''id'' = Some cid \<and> add_root_edges pt xs = Inr xs' \<and>
           (if cid \<in> fst ` set pt
            then \<exists>d. map_of x ''deps'' = Some d \<and>
                     s' = AList.update ''deps'' (d @ ''|0:root'') x # xs'
            else s' = x # xs')"
proof (cases "map_of x ''id''")
  case None
  with assms show ?thesis by (simp add: get_field_def)
next
  case (Some cid)
  note cid = Some
  show ?thesis
  proof (cases "add_root_edges pt xs")
    case (Inl e)
    with assms cid show ?thesis
      by (cases "map_of x ''deps''") (simp_all add: get_field_def split: if_splits)
  next
    case (Inr xs')
    show ?thesis
    proof (cases "cid \<in> fst ` set pt")
      case True
      with assms cid Inr show ?thesis
        by (cases "map_of x ''deps''") (simp_all add: get_field_def root_edge_def)
    next
      case False
      with assms cid Inr show ?thesis by (simp add: get_field_def)
    qed
  qed
qed

lemma add_root_edges_frame:
  "add_root_edges pt s = Inr s' \<Longrightarrow>
   length s' = length s \<and>
   (\<forall>i<length s. \<exists>cid d. map_of (s ! i) ''id'' = Some cid \<and>
       (if cid \<in> fst ` set pt
        then map_of (s ! i) ''deps'' = Some d \<and>
             s' ! i = AList.update ''deps'' (d @ ''|0:root'') (s ! i)
        else s' ! i = s ! i))"
proof (induction s arbitrary: s')
  case Nil
  then show ?case by simp
next
  case (Cons x xs)
  from add_root_edges_Cons_Inr[OF Cons.prems] obtain cid xs' where
    cid: "map_of x ''id'' = Some cid" and
    xs': "add_root_edges pt xs = Inr xs'" and
    hd: "if cid \<in> fst ` set pt
         then \<exists>d. map_of x ''deps'' = Some d \<and> s' = AList.update ''deps'' (d @ ''|0:root'') x # xs'
         else s' = x # xs'"
    by blast
  note IH = Cons.IH[OF xs']
  obtain y where s': "s' = y # xs'" using hd by (cases "cid \<in> fst ` set pt") auto
  have len: "length s' = length (x # xs)" using s' IH by simp
  have "\<exists>cid d. map_of ((x # xs) ! i) ''id'' = Some cid \<and>
       (if cid \<in> fst ` set pt
        then map_of ((x # xs) ! i) ''deps'' = Some d \<and>
             s' ! i = AList.update ''deps'' (d @ ''|0:root'') ((x # xs) ! i)
        else s' ! i = (x # xs) ! i)" if "i < length (x # xs)" for i
  proof (cases i)
    case 0
    show ?thesis
    proof (cases "cid \<in> fst ` set pt")
      case True
      with hd obtain d where "map_of x ''deps'' = Some d"
        "s' = AList.update ''deps'' (d @ ''|0:root'') x # xs'" by auto
      with cid True 0 show ?thesis by (intro exI[of _ cid] exI[of _ d]) simp
    next
      case False
      with hd have "s' = x # xs'" by simp
      with cid False 0 show ?thesis by (intro exI[of _ cid]) simp
    qed
  next
    case (Suc j)
    then have "j < length xs" using that by simp
    then obtain c d where cd: "map_of (xs ! j) ''id'' = Some c \<and>
       (if c \<in> fst ` set pt
        then map_of (xs ! j) ''deps'' = Some d \<and>
             xs' ! j = AList.update ''deps'' (d @ ''|0:root'') (xs ! j)
        else xs' ! j = xs ! j)"
      using IH by blast
    have "s' ! i = xs' ! j" "(x # xs) ! i = xs ! j" using s' Suc by simp_all
    with cd show ?thesis by (intro exI[of _ c] exI[of _ d]) simp
  qed
  then show ?case using len by blast
qed

lemma update_existing_keys:
  "map_of x k = Some d \<Longrightarrow> map fst (AList.update k v x) = map fst x"
  by (simp add: update_keys map_of_eq_None_iff[symmetric] del: map_of_eq_None_iff)

lemma get_fields_nth:
  "get_fields k s = Inr vs \<Longrightarrow> i < length s \<Longrightarrow> map_of (s ! i) k = Some (vs ! i)"
proof (induction s arbitrary: vs i)
  case Nil
  then show ?case by simp
next
  case (Cons x xs)
  from Cons.prems(1) obtain v vs' where v: "map_of x k = Some v"
    and vs': "get_fields k xs = Inr vs'" and vs: "vs = v # vs'"
    by (cases "map_of x k"; cases "get_fields k xs") (simp_all add: get_field_def)
  show ?case
  proof (cases i)
    case 0
    then show ?thesis using v vs by simp
  next
    case (Suc j)
    then show ?thesis using Cons.IH[OF vs', of j] Cons.prems(2) vs by simp
  qed
qed

lemma ids_to_heads_of_deps:
  assumes "ids_to_heads_of s = Inr hm"
  shows "\<exists>deps. get_fields ''deps'' s = Inr deps"
proof (cases "get_fields ''deps'' s")
  case (Inl e)
  with assms show ?thesis
    by (cases "get_fields ''id'' s"; cases "get_fields ''head'' s"; cases "get_fields ''deprel'' s")
       (simp_all add: ids_to_heads_of_def Let_def)
next
  case (Inr deps)
  then show ?thesis by simp
qed

lemma process_sentence_Inr:
  assumes "process_sentence ri s = Inr (s', ri')"
  shows "\<exists>hm a. ids_to_heads_of s = Inr hm \<and> analyse ri hm = Inr a
           \<and> add_root_edges (pruned_tree a) s = Inr s' \<and> ri' = root_index a"
proof (cases "ids_to_heads_of s")
  case (Inl e)
  with assms show ?thesis by (simp add: process_sentence_def)
next
  case (Inr hm)
  note hm = Inr
  show ?thesis
  proof (cases "analyse ri hm")
    case (Inl e)
    with assms hm show ?thesis by (simp add: process_sentence_def)
  next
    case (Inr a)
    with assms hm show ?thesis
      by (cases "add_root_edges (pruned_tree a) s") (simp_all add: process_sentence_def)
  qed
qed

lemma frame_at_update:
  assumes "map_of x ''id'' = Some cid" "map_of x ''deps'' = Some d" "cid \<in> fst ` set pt"
  shows "frame_at pt x (AList.update ''deps'' (d @ ''|0:root'') x)"
proof -
  have "map fst (AList.update ''deps'' (d @ ''|0:root'') x) = map fst x"
    using update_existing_keys[OF assms(2)] .
  moreover have "\<forall>k. k \<noteq> ''deps'' \<longrightarrow>
      map_of (AList.update ''deps'' (d @ ''|0:root'') x) k = map_of x k"
    by (simp add: update_conv')
  moreover have "map_of (AList.update ''deps'' (d @ ''|0:root'') x) ''deps'' = Some (d @ ''|0:root'')"
    by (simp add: update_conv')
  ultimately show ?thesis unfolding frame_at_def using assms by simp
qed

lemma frame_at_same:
  assumes "map_of x ''id'' = Some cid" "map_of x ''deps'' = Some d" "cid \<notin> fst ` set pt"
  shows "frame_at pt x x"
  unfolding frame_at_def using assms by simp

subsection \<open>Which stage raises which error\<close>

lemma fold_err_never:
  assumes "\<And>x s. f x s \<noteq> Inl e"
  shows "fold_err f xs s \<noteq> Inl e"
proof (induction xs arbitrary: s)
  case Nil
  then show ?case by simp
next
  case (Cons x xs)
  then show ?case using assms[of x s] by (cases "f x s") simp_all
qed

lemma dict_get_error: "dict_get d k = Inl e \<Longrightarrow> e = KeyError"
  by (cases "map_of d k") (simp_all add: dict_get_def)

lemma init_fragments_no_NameError: "init_fragments hm un \<noteq> Inl NameError"
  unfolding init_fragments_def
proof (rule fold_err_never)
  fix x :: string and s :: head_map
  show "(case dict_get hm x of Inl e \<Rightarrow> Inl e
         | Inr unreachable_heads \<Rightarrow>
             Inr (fold (\<lambda>unreachable_head fragments. AList.update unreachable_head [] fragments)
                    unreachable_heads s)) \<noteq> Inl NameError"
    using dict_get_error[of hm x] by (cases "dict_get hm x") auto
qed

lemma fill_fragments_no_NameError: "fill_fragments hm un frags \<noteq> Inl NameError"
  unfolding fill_fragments_def
proof (rule fold_err_never)
  fix x :: string and s :: head_map
  have inner: "fold_err (\<lambda>unreachable_head fragments.
                 case map_of fragments unreachable_head of
                   Some children \<Rightarrow> Inr (AList.update unreachable_head (children @ [x]) fragments)
                 | None \<Rightarrow> Inl ValueError) hs s \<noteq> Inl NameError" for hs
  proof (rule fold_err_never)
    fix h :: string and fr :: head_map
    show "(case map_of fr h of
             Some children \<Rightarrow> Inr (AList.update h (children @ [x]) fr)
           | None \<Rightarrow> Inl ValueError) \<noteq> Inl NameError"
      by (cases "map_of fr h") simp_all
  qed
  show "(case dict_get hm x of Inl e \<Rightarrow> Inl e
         | Inr unreachable_heads \<Rightarrow>
             fold_err (\<lambda>unreachable_head fragments.
                 case map_of fragments unreachable_head of
                   Some children \<Rightarrow> Inr (AList.update unreachable_head (children @ [x]) fragments)
                 | None \<Rightarrow> Inl ValueError) unreachable_heads s) \<noteq> Inl NameError"
    using dict_get_error[of hm x] inner by (cases "dict_get hm x") auto
qed

lemma unreachable_head_fragments_no_NameError:
  "unreachable_head_fragments hm un \<noteq> Inl NameError"
  using init_fragments_no_NameError[of hm un] fill_fragments_no_NameError[of hm un]
  by (cases "init_fragments hm un") (simp_all add: unreachable_head_fragments_def)

lemma del_head_of_fragment_error:
  "del_head_of_fragment k frags i hs = Inl e \<Longrightarrow> e = IndexError"
proof (induction frags arbitrary: hs)
  case Nil
  then show ?case by simp
next
  case (Cons p frags)
  obtain parent children where p: "p = (parent, children)" by (cases p)
  from Cons show ?case by (auto simp: p split: if_splits)
qed

lemma prune_heads_from_error:
  "prune_heads_from frags i hs = Inl e \<Longrightarrow> e = IndexError"
proof (induction frags i hs rule: prune_heads_from.induct)
  case (1 frags i hs)
  show ?case
  proof (cases "i < length hs")
    case True
    show ?thesis
    proof (cases "del_head_of_fragment (hs ! i) frags i hs")
      case (Inl e')
      with True "1.prems" have "e = e'" by (simp add: prune_heads_from.simps[of frags i hs])
      then show ?thesis using del_head_of_fragment_error[OF Inl] by simp
    next
      case (Inr hs')
      with True "1.prems" have "prune_heads_from frags (Suc i) hs' = Inl e"
        by (simp add: prune_heads_from.simps[of frags i hs])
      then show ?thesis using "1.IH"[OF True Inr] by simp
    qed
  next
    case False
    with "1.prems" show ?thesis by (simp add: prune_heads_from.simps[of frags i hs])
  qed
qed

lemma add_root_edges_error: "add_root_edges pt s = Inl e \<Longrightarrow> e = KeyError"
proof (induction s arbitrary: e)
  case Nil
  then show ?case by simp
next
  case (Cons x xs)
  show ?case
  proof (cases "map_of x ''id''")
    case None
    with Cons.prems show ?thesis by (simp add: get_field_def)
  next
    case (Some cid)
    show ?thesis
    proof (cases "add_root_edges pt xs")
      case (Inl e')
      then have "e' = KeyError" using Cons.IH[of e'] by simp
      with Cons.prems Some Inl show ?thesis
        by (cases "map_of x ''deps''") (auto simp: get_field_def split: if_splits)
    next
      case (Inr xs')
      with Cons.prems Some show ?thesis
        by (cases "map_of x ''deps''") (auto simp: get_field_def split: if_splits)
    qed
  qed
qed

lemma initial_nodes_rootless:
  assumes "roots_of hm = {}"
  shows "initial_nodes None hm = (if \<forall>(t, hs) \<in> set hm. hs = [] then Inr ([], None) else Inl NameError)"
    and "\<exists>nodes0. initial_nodes (Some r) hm = Inr (nodes0, Some r)"
proof -
  obtain roots r1 where f: "find_root hm ([], None) = (roots, r1)"
    by (cases "find_root hm ([], None)")
  have "set roots = {}" using find_root_set[of hm "[]" None] f assms by simp
  moreover have "r1 = None" using find_root_index[of hm "[]" None] f assms by simp
  ultimately show "initial_nodes None hm =
      (if \<forall>(t, hs) \<in> set hm. hs = [] then Inr ([], None) else Inl NameError)"
    using f by (simp add: initial_nodes_def find_root_children_None)
next
  obtain roots r1 where f: "find_root hm ([], Some r) = (roots, r1)"
    by (cases "find_root hm ([], Some r)")
  have "r1 = Some r" using find_root_index[of hm "[]" "Some r"] f assms by simp
  moreover obtain nodes' where "find_root_children hm (Some r) roots = Inr nodes'"
    using find_root_children_Some[of hm r roots] by blast
  ultimately show "\<exists>nodes0. initial_nodes (Some r) hm = Inr (nodes0, Some r)"
    using f by (simp add: initial_nodes_def)
qed

lemma analyse_Some_no_NameError:
  assumes "roots_of hm = {}"
  shows "analyse (Some r) hm \<noteq> Inl NameError"
proof -
  obtain nodes0 where i: "initial_nodes (Some r) hm = Inr (nodes0, Some r)"
    using initial_nodes_rootless(2)[OF assms] by blast
  let ?nodes = "search_for_dependents hm nodes0 True"
  let ?un = "find_unreachable hm ?nodes"
  have rn: "reachable_nodes (Some r) hm = Inr (?nodes, Some r)"
    using i by (simp add: reachable_nodes_def)
  show ?thesis
  proof (cases "unreachable_head_fragments hm ?un")
    case (Inl e)
    then have "e \<noteq> NameError" using unreachable_head_fragments_no_NameError[of hm ?un] by auto
    then show ?thesis using rn Inl by (simp add: analyse_def)
  next
    case (Inr frags)
    show ?thesis
    proof (cases "prune_heads frags")
      case (Inl e)
      then have "e = IndexError" using prune_heads_from_error by (simp add: prune_heads_def)
      then show ?thesis using rn Inr Inl by (simp add: analyse_def)
    next
      case (Inr hs)
      then show ?thesis using rn \<open>unreachable_head_fragments hm ?un = Inr frags\<close>
        by (simp add: analyse_def)
    qed
  qed
qed

subsection \<open>The loop computes a closure of the edge set\<close>

lemma set_edge_pairs:
  "set (edge_pairs hm) = {(t, h). \<exists>hs. (t, hs) \<in> set hm \<and> h \<in> set hs}"
  by (auto simp: edge_pairs_def)

lemma roots_of_edges: "roots_of hm = {t. (t, ''0'') \<in> set (edge_pairs hm)}"
  by (auto simp: roots_of_def set_edge_pairs)

lemma children_of_edges: "children_of hm r = {t. (t, r) \<in> set (edge_pairs hm)}"
  by (auto simp: children_of_def set_edge_pairs)

lemma no_heads_edges: "(\<forall>(t, hs) \<in> set hm. hs = []) \<longleftrightarrow> set (edge_pairs hm) = {}"
proof
  assume "\<forall>(t, hs) \<in> set hm. hs = []"
  then show "set (edge_pairs hm) = {}" by (auto simp: set_edge_pairs)
next
  assume e: "set (edge_pairs hm) = {}"
  show "\<forall>(t, hs) \<in> set hm. hs = []"
  proof (clarify)
    fix t hs assume m: "(t, hs) \<in> set hm"
    show "hs = []"
    proof (cases hs)
      case Nil
      then show ?thesis .
    next
      case (Cons h hs')
      with m have "(t, h) \<in> set (edge_pairs hm)" by (auto simp: set_edge_pairs)
      with e show ?thesis by simp
    qed
  qed
qed

lemma visit_heads_sound:
  "set nodes \<subseteq> D \<Longrightarrow> (\<forall>h \<in> set hs. h \<in> D \<longrightarrow> t \<in> D) \<Longrightarrow> set (visit_heads t hs nodes) \<subseteq> D"
proof (induction hs arbitrary: nodes)
  case Nil
  then show ?case by (simp add: visit_heads_def)
next
  case (Cons h hs)
  let ?n1 = "if h \<in> set nodes then (if t \<notin> set nodes then nodes @ [t] else nodes) else nodes"
  have step: "visit_heads t (h # hs) nodes = visit_heads t hs ?n1"
    by (simp add: visit_heads_def)
  have "set ?n1 \<subseteq> D" using Cons.prems by auto
  moreover have "\<forall>h \<in> set hs. h \<in> D \<longrightarrow> t \<in> D" using Cons.prems(2) by simp
  ultimately show ?case using Cons.IH[of ?n1] step by simp
qed

lemma sweep_sound:
  "set nodes \<subseteq> D \<Longrightarrow> (\<forall>(t, hs) \<in> set hm. \<forall>h \<in> set hs. h \<in> D \<longrightarrow> t \<in> D) \<Longrightarrow>
   set (sweep hm nodes) \<subseteq> D"
proof (induction hm arbitrary: nodes)
  case Nil
  then show ?case by (simp add: sweep_def)
next
  case (Cons p hm)
  obtain t hs where p: "p = (t, hs)" by (cases p)
  have "set (visit_heads t hs nodes) \<subseteq> D"
    using visit_heads_sound[OF Cons.prems(1), of hs t] Cons.prems(2) p by simp
  moreover have "\<forall>(t, hs) \<in> set hm. \<forall>h \<in> set hs. h \<in> D \<longrightarrow> t \<in> D"
    using Cons.prems(2) by simp
  ultimately show ?case using Cons.IH[of "visit_heads t hs nodes"] by (simp add: p sweep_Cons)
qed

lemma sweeps_sound:
  "set nodes \<subseteq> D \<Longrightarrow> (\<forall>(t, hs) \<in> set hm. \<forall>h \<in> set hs. h \<in> D \<longrightarrow> t \<in> D) \<Longrightarrow>
   set (fst (sweeps hm n (nodes, keep))) \<subseteq> D"
proof (induction n arbitrary: nodes keep)
  case 0
  then show ?case by (simp add: sweeps_0)
next
  case (Suc n)
  obtain n1 k1 where t: "traverse_root_children hm nodes keep = (n1, k1)"
    by (cases "traverse_root_children hm nodes keep")
  then have "n1 = sweep hm nodes" using traverse_fst[of hm nodes keep] by simp
  then have "set n1 \<subseteq> D" using sweep_sound[OF Suc.prems] by simp
  then show ?case using Suc.IH[of n1 k1] Suc.prems(2) by (simp add: sweeps_Suc t)
qed

lemma search_closure:
  "set (search_for_dependents hm nodes True) = {x. reaches (set (edge_pairs hm)) (set nodes) x}"
proof (intro equalityI subsetI)
  let ?D = "{x. reaches (set (edge_pairs hm)) (set nodes) x}"
  obtain n where n: "sweeps hm n (nodes, True) = (search_for_dependents hm nodes True, False)"
    using search_as_sweeps[of hm nodes] by blast
  have "set nodes \<subseteq> ?D" by (auto intro: reaches.start)
  moreover have "\<forall>(t, hs) \<in> set hm. \<forall>h \<in> set hs. h \<in> ?D \<longrightarrow> t \<in> ?D"
    by (auto intro: reaches.follow simp: set_edge_pairs)
  ultimately have "set (fst (sweeps hm n (nodes, True))) \<subseteq> ?D" by (rule sweeps_sound)
  then have sub: "set (search_for_dependents hm nodes True) \<subseteq> ?D" using n by simp
  fix x assume "x \<in> set (search_for_dependents hm nodes True)"
  then show "x \<in> ?D" using sub by blast
next
  fix x assume "x \<in> {x. reaches (set (edge_pairs hm)) (set nodes) x}"
  then have "reaches (set (edge_pairs hm)) (set nodes) x" by simp
  then show "x \<in> set (search_for_dependents hm nodes True)"
  proof (induction rule: reaches.induct)
    case (start x)
    obtain ext where "search_for_dependents hm nodes True = nodes @ ext"
      using search_as_sweeps[of hm nodes] by blast
    then show ?case using start by simp
  next
    case (follow t h)
    have "heads_closed hm (search_for_dependents hm nodes True)"
      using search_as_sweeps[of hm nodes] by blast
    moreover obtain hs where "(t, hs) \<in> set hm" "h \<in> set hs"
      using follow.hyps(1) by (auto simp: set_edge_pairs)
    ultimately show ?case using follow.IH unfolding heads_closed_iff by blast
  qed
qed

lemma reaches_mono: "reaches E I x \<Longrightarrow> I \<subseteq> J \<Longrightarrow> reaches E J x"
  by (induction rule: reaches.induct) (auto intro: reaches.intros)

lemma reaches_absorb:
  assumes "r \<in> I"
  shows "{x. reaches E (I \<union> {t. (t, r) \<in> E}) x} = {x. reaches E I x}"
proof (intro equalityI subsetI)
  fix x assume "x \<in> {x. reaches E (I \<union> {t. (t, r) \<in> E}) x}"
  then have "reaches E (I \<union> {t. (t, r) \<in> E}) x" by simp
  then have "reaches E I x"
  proof (induction rule: reaches.induct)
    case (start x)
    then show ?case using assms by (auto intro: reaches.intros)
  next
    case (follow t h)
    then show ?case by (auto intro: reaches.follow)
  qed
  then show "x \<in> {x. reaches E I x}" by simp
next
  fix x assume "x \<in> {x. reaches E I x}"
  then show "x \<in> {x. reaches E (I \<union> {t. (t, r) \<in> E}) x}"
    using reaches_mono[of E I x "I \<union> {t. (t, r) \<in> E}"] by simp
qed

lemma reaches_empty: "{x. reaches E {} x} = {}"
proof -
  have "reaches E {} x \<Longrightarrow> False" for x
    by (induction rule: reaches.induct) auto
  then show ?thesis by auto
qed

lemma reachable_nodes_char:
  "map_sum id (set \<circ> fst) (reachable_nodes ri hm) = closure_from_root (set (edge_pairs hm)) ri"
proof -
  let ?E = "set (edge_pairs hm)"
  obtain roots r1 where f: "find_root hm ([], ri) = (roots, r1)"
    by (cases "find_root hm ([], ri)")
  have rs: "set roots = {t. (t, ''0'') \<in> ?E}"
    using find_root_set[of hm "[]" ri] f by (simp add: roots_of_edges)
  have ix: "r1 = ri \<and> roots_of hm = {} \<or> (\<exists>r \<in> roots_of hm. r1 = Some r)"
    using find_root_index[of hm "[]" ri] f by simp
  show ?thesis
  proof (cases "{t. (t, ''0'') \<in> ?E} = {}")
    case True
    then have r1: "r1 = ri" using ix by (auto simp: roots_of_edges)
    have roots: "roots = []" using rs True by simp
    show ?thesis
    proof (cases ri)
      case None
      show ?thesis
      proof (cases "?E = {}")
        case True
        then have "find_root_children hm None [] = Inr []"
          using no_heads_edges[of hm] by (simp add: find_root_children_None)
        then have "reachable_nodes ri hm = Inr (search_for_dependents hm [] True, None)"
          using f r1 roots None by (simp add: reachable_nodes_def initial_nodes_def)
        moreover have "set (search_for_dependents hm [] True) = {}"
          by (simp add: search_closure reaches_empty)
        ultimately show ?thesis
          using True None \<open>{t. (t, ''0'') \<in> ?E} = {}\<close> by (simp add: closure_from_root_def)
      next
        case False
        then have "find_root_children hm None [] = Inl NameError"
          using no_heads_edges[of hm] by (simp add: find_root_children_None)
        then have "reachable_nodes ri hm = Inl NameError"
          using f r1 roots None by (simp add: reachable_nodes_def initial_nodes_def)
        then show ?thesis
          using False None True by (simp add: closure_from_root_def)
      qed
    next
      case (Some r)
      obtain nodes0 where n0: "find_root_children hm (Some r) [] = Inr nodes0"
        "set nodes0 = {t. (t, r) \<in> ?E}"
        using find_root_children_Some[of hm r "[]"] by (auto simp: children_of_edges)
      have "reachable_nodes ri hm = Inr (search_for_dependents hm nodes0 True, Some r)"
        using f r1 roots Some n0(1) by (simp add: reachable_nodes_def initial_nodes_def)
      then show ?thesis
        using True Some n0(2) by (simp add: closure_from_root_def search_closure)
    qed
  next
    case False
    then obtain r where r: "r \<in> {t. (t, ''0'') \<in> ?E}" "r1 = Some r"
      using ix by (auto simp: roots_of_edges)
    obtain nodes0 where n0: "find_root_children hm (Some r) roots = Inr nodes0"
      "set nodes0 = set roots \<union> {t. (t, r) \<in> ?E}"
      using find_root_children_Some[of hm r roots] by (auto simp: children_of_edges)
    have rn: "reachable_nodes ri hm = Inr (search_for_dependents hm nodes0 True, Some r)"
      using f r(2) n0(1) by (simp add: reachable_nodes_def initial_nodes_def)
    have eq: "{x. reaches ?E (set nodes0) x} = {x. reaches ?E {t. (t, ''0'') \<in> ?E} x}"
      using reaches_absorb[OF r(1), of ?E] n0(2) rs by simp
    have c: "closure_from_root ?E ri = Inr {x. reaches ?E {t. (t, ''0'') \<in> ?E} x}"
      unfolding closure_from_root_def by (rule if_not_P[OF False])
    have "map_sum id (set \<circ> fst) (reachable_nodes ri hm)
            = Inr (set (search_for_dependents hm nodes0 True))"
      using rn by simp
    also have "\<dots> = Inr {x. reaches ?E (set nodes0) x}" by (simp only: search_closure)
    also have "\<dots> = Inr {x. reaches ?E {t. (t, ''0'') \<in> ?E} x}" by (simp only: eq)
    also have "\<dots> = closure_from_root ?E ri" by (simp only: c)
    finally show ?thesis .
  qed
qed

subsection \<open>The collapse loop\<close>

lemma is_child_hits: "is_child frags k \<longleftrightarrow> 0 < hits frags k"
  by (auto simp: is_child_def hits_def list_ex_iff filter_empty_conv)

lemma hits_Cons:
  "hits ((parent, children) # frags) k = (if k \<in> set children then Suc (hits frags k) else hits frags k)"
  by (simp add: hits_def)

lemma del_head_of_fragment_eq:
  "del_head_of_fragment k frags i hs =
     (if hits frags k = 0 \<or> i + hits frags k \<le> length hs
      then Inr (take i hs @ drop (i + hits frags k) hs) else Inl IndexError)"
proof (induction frags arbitrary: hs)
  case Nil
  then show ?case by (simp add: hits_def)
next
  case (Cons p frags)
  obtain parent children where p: "p = (parent, children)" by (cases p)
  show ?case
  proof (cases "k \<in> set children")
    case False
    then show ?thesis using Cons.IH[of hs] by (simp add: p hits_Cons)
  next
    case True
    show ?thesis
    proof (cases "i < length hs")
      case False
      then show ?thesis using True by (simp add: p hits_Cons)
    next
      case lt: True
      let ?hs = "del_at i hs"
      have len: "length ?hs = length hs - 1" using lt by (simp add: del_at_def)
      have tk: "take i ?hs = take i hs" using lt by (simp add: del_at_def)
      have dr: "drop (i + n) ?hs = drop (i + Suc n) hs" for n
        using lt by (simp add: del_at_def add.commute)
      have step: "del_head_of_fragment k (p # frags) i hs = del_head_of_fragment k frags i ?hs"
        using True lt by (simp add: p)
      show ?thesis
      proof (cases "hits frags k = 0")
        case True
        then show ?thesis
          using step Cons.IH[of ?hs] \<open>k \<in> set children\<close> lt tk dr[of 0]
          by (simp add: p hits_Cons)
      next
        case False
        then show ?thesis
          using step Cons.IH[of ?hs] \<open>k \<in> set children\<close> lt tk dr[of "hits frags k"] len
          by (auto simp: p hits_Cons)
      qed
    qed
  qed
qed

lemma distinct_nth_notin_take:
  "distinct ks \<Longrightarrow> m < length ks \<Longrightarrow> j \<le> m \<Longrightarrow> ks ! m \<notin> set (take j ks)"
  by (auto simp: in_set_conv_nth nth_eq_iff_index_eq)

lemma distinct_nth_notin_drop:
  "distinct ks \<Longrightarrow> m < length ks \<Longrightarrow> m < a \<Longrightarrow> ks ! m \<notin> set (drop a ks)"
  by (auto simp: in_set_conv_nth nth_eq_iff_index_eq)

subsection \<open>Fragment keys are distinct, and the keys of the pruned tree\<close>

lemma fold_err_invariant:
  assumes "\<And>x s s'. P s \<Longrightarrow> f x s = Inr s' \<Longrightarrow> P s'"
  shows "P s \<Longrightarrow> fold_err f xs s = Inr s' \<Longrightarrow> P s'"
proof (induction xs arbitrary: s)
  case Nil
  then show ?case by simp
next
  case (Cons x xs)
  from Cons.prems(2) obtain s1 where s1: "f x s = Inr s1" "fold_err f xs s1 = Inr s'"
    by (cases "f x s") simp_all
  have "P s1" using assms[OF Cons.prems(1) s1(1)] .
  then show ?case using Cons.IH[OF _ s1(2)] by simp
qed

lemma fold_update_distinct:
  "distinct (map fst d) \<Longrightarrow> distinct (map fst (fold (\<lambda>k d. AList.update k v d) ks d))"
  by (induction ks arbitrary: d) (simp_all add: distinct_update)

lemma init_fragments_distinct:
  assumes "init_fragments hm un = Inr frags"
  shows "distinct (map fst frags)"
proof (rule fold_err_invariant[where P = "\<lambda>d. distinct (map fst d)" and s = "[]",
      OF _ _ assms[unfolded init_fragments_def]])
  fix x :: string and s s' :: head_map
  assume "distinct (map fst s)"
    and "(case dict_get hm x of Inl e \<Rightarrow> Inl e
          | Inr unreachable_heads \<Rightarrow>
              Inr (fold (\<lambda>unreachable_head fragments. AList.update unreachable_head [] fragments)
                     unreachable_heads s)) = Inr s'"
  then show "distinct (map fst s')"
    using fold_update_distinct[of s "[]"] by (cases "dict_get hm x") auto
next
  show "distinct (map fst ([] :: head_map))" by simp
qed

lemma fill_fragments_distinct:
  assumes "fill_fragments hm un frags0 = Inr frags" and "distinct (map fst frags0)"
  shows "distinct (map fst frags)"
proof (rule fold_err_invariant[where P = "\<lambda>d. distinct (map fst d)" and s = frags0,
      OF _ assms(2) assms(1)[unfolded fill_fragments_def]])
  fix x :: string and s s' :: head_map
  assume ds: "distinct (map fst s)"
    and st: "(case dict_get hm x of Inl e \<Rightarrow> Inl e
          | Inr unreachable_heads \<Rightarrow>
              fold_err (\<lambda>unreachable_head fragments.
                  case map_of fragments unreachable_head of
                    Some children \<Rightarrow>
                      Inr (AList.update unreachable_head (children @ [x]) fragments)
                  | None \<Rightarrow> Inl ValueError) unreachable_heads s) = Inr s'"
  from st obtain hs where hs: "fold_err (\<lambda>unreachable_head fragments.
                  case map_of fragments unreachable_head of
                    Some children \<Rightarrow>
                      Inr (AList.update unreachable_head (children @ [x]) fragments)
                  | None \<Rightarrow> Inl ValueError) hs s = Inr s'"
    by (cases "dict_get hm x") auto
  show "distinct (map fst s')"
  proof (rule fold_err_invariant[where P = "\<lambda>d. distinct (map fst d)", OF _ ds hs])
    fix h :: string and fr fr' :: head_map
    assume "distinct (map fst fr)"
      and "(case map_of fr h of
              Some children \<Rightarrow> Inr (AList.update h (children @ [x]) fr)
            | None \<Rightarrow> Inl ValueError) = Inr fr'"
    then show "distinct (map fst fr')"
      by (cases "map_of fr h") (auto simp: distinct_update)
  qed
qed

lemma unreachable_head_fragments_distinct:
  assumes "unreachable_head_fragments hm un = Inr frags"
  shows "distinct (map fst frags)"
proof -
  from assms obtain frags0 where "init_fragments hm un = Inr frags0"
    "fill_fragments hm un frags0 = Inr frags"
    by (cases "init_fragments hm un") (simp_all add: unreachable_head_fragments_def)
  then show ?thesis using init_fragments_distinct fill_fragments_distinct by blast
qed

lemma pruned_keys_one:
  "fst ` set (fold (\<lambda>(parent, children) pruned.
                     if k = parent then AList.update k children pruned else pruned) frags pt)
     = fst ` set pt \<union> (if k \<in> fst ` set frags then {k} else {})"
proof (induction frags arbitrary: pt)
  case Nil
  then show ?case by simp
next
  case (Cons p frags)
  obtain parent children where p: "p = (parent, children)" by (cases p)
  show ?case
  proof (cases "k = parent")
    case True
    then show ?thesis using Cons.IH[of "AList.update k children pt"]
      by (auto simp: p dom_update)
  next
    case False
    then show ?thesis using Cons.IH[of pt] by (auto simp: p)
  qed
qed

lemma pruned_keys_from:
  "fst ` set (fold (\<lambda>head_of_fragment pruned.
                      fold (\<lambda>(parent, children) pruned.
                              if head_of_fragment = parent
                              then AList.update head_of_fragment children pruned
                              else pruned) frags pruned) hs pt)
     = fst ` set pt \<union> (set hs \<inter> fst ` set frags)"
proof (induction hs arbitrary: pt)
  case Nil
  then show ?case by simp
next
  case (Cons k hs)
  show ?case
    by (simp only: fold_simps Cons.IH pruned_keys_one) auto
qed

lemma populate_pruned_tree_keys:
  "fst ` set (populate_pruned_tree frags hs) = set hs \<inter> fst ` set frags"
  using pruned_keys_from[of frags hs "[]"] by (simp add: populate_pruned_tree_def)

lemma analyse_Inr:
  assumes "analyse ri hm = Inr a"
  shows "\<exists>nodes. unreachable_head_fragments hm (find_unreachable hm nodes) = Inr (fragments a)
           \<and> prune_heads (fragments a) = Inr (heads_of_fragments a)
           \<and> pruned_tree a = populate_pruned_tree (fragments a) (heads_of_fragments a)
           \<and> reachable_nodes ri hm = Inr (nodes, root_index a)
           \<and> nodes_reachable_from_root a = nodes
           \<and> unreachable_nodes a = find_unreachable hm nodes"
proof (cases "reachable_nodes ri hm")
  case (Inl e)
  with assms show ?thesis by (simp add: analyse_def)
next
  case (Inr p)
  obtain nodes r1 where p: "p = (nodes, r1)" by (cases p)
  show ?thesis
  proof (cases "unreachable_head_fragments hm (find_unreachable hm nodes)")
    case (Inl e)
    with assms Inr p show ?thesis by (simp add: analyse_def)
  next
    case frags: (Inr frags)
    show ?thesis
    proof (cases "prune_heads frags")
      case (Inl e)
      with assms Inr p frags show ?thesis by (simp add: analyse_def)
    next
      case hs: (Inr hs)
      from assms Inr p frags hs
      have "a = \<lparr>root_index = r1, nodes_reachable_from_root = nodes,
                 unreachable_nodes = find_unreachable hm nodes, fragments = frags,
                 heads_of_fragments = hs, pruned_tree = populate_pruned_tree frags hs\<rparr>"
        by (simp add: analyse_def)
      then show ?thesis using Inr p frags hs by (intro exI[of _ nodes]) simp
    qed
  qed
qed

subsection \<open>Examined keys that are children are removed\<close>

lemma prune_heads_from_subset:
  "prune_heads_from frags i hs = Inr final \<Longrightarrow> set final \<subseteq> set hs"
proof (induction frags i hs rule: prune_heads_from.induct)
  case (1 frags i hs)
  show ?case
  proof (cases "i < length hs")
    case False
    with "1.prems" show ?thesis by (simp add: prune_heads_from.simps[of frags i hs])
  next
    case True
    show ?thesis
    proof (cases "del_head_of_fragment (hs ! i) frags i hs")
      case (Inl e)
      with True "1.prems" show ?thesis by (simp add: prune_heads_from.simps[of frags i hs])
    next
      case (Inr hs')
      then have rec: "prune_heads_from frags (Suc i) hs' = Inr final"
        using True "1.prems" by (simp add: prune_heads_from.simps[of frags i hs])
      have "set hs' \<subseteq> set hs"
      proof -
        have "hs' = take i hs @ drop (i + hits frags (hs ! i)) hs"
          using Inr by (simp add: del_head_of_fragment_eq split: if_splits)
        then show ?thesis
          using set_take_subset[of i hs] set_drop_subset[of "i + hits frags (hs ! i)" hs] by auto
      qed
      then show ?thesis using "1.IH"[OF True Inr rec] by blast
    qed
  qed
qed

lemma examined_child_removed:
  assumes d: "distinct ks"
  shows "prune_heads_from frags i hs = Inr final \<Longrightarrow>
         drop i hs = drop j ks \<Longrightarrow>
         set (take i hs) \<subseteq> set (take j ks) \<Longrightarrow>
         k \<in> set (examined_from frags i hs) \<Longrightarrow> 0 < hits frags k \<Longrightarrow> k \<notin> set final"
proof (induction frags i hs arbitrary: j rule: prune_heads_from.induct)
  case (1 frags i hs)
  note res = "1.prems"(1) and dr = "1.prems"(2) and sub = "1.prems"(3)
    and ex = "1.prems"(4) and ch = "1.prems"(5)
  show ?case
  proof (cases "i < length hs")
    case False
    with ex show ?thesis by (simp add: examined_from.simps[of frags i hs])
  next
    case True
    let ?n = "hits frags (hs ! i)"
    have hd: "drop i hs = hs ! i # drop (Suc i) hs" using True by (simp add: Cons_nth_drop_Suc)
    have jl: "j < length ks"
    proof (rule ccontr)
      assume "\<not> j < length ks"
      then have "drop j ks = []" by simp
      with hd dr show False by simp
    qed
    have hdk: "drop j ks = ks ! j # drop (Suc j) ks" using jl by (simp add: Cons_nth_drop_Suc)
    have kj: "hs ! i = ks ! j" using hd hdk dr by simp
    have drn: "drop (i + n) hs = drop (j + n) ks" for n
    proof -
      have "drop (i + n) hs = drop n (drop i hs)" by (simp add: add.commute)
      also have "\<dots> = drop n (drop j ks)" using dr by simp
      also have "\<dots> = drop (j + n) ks" by (simp add: add.commute)
      finally show ?thesis .
    qed
    have ok: "?n = 0 \<or> i + ?n \<le> length hs"
    proof (rule ccontr)
      assume "\<not> (?n = 0 \<or> i + ?n \<le> length hs)"
      then have "del_head_of_fragment (hs ! i) frags i hs = Inl IndexError"
        by (simp add: del_head_of_fragment_eq)
      with res True show False by (simp add: prune_heads_from.simps[of frags i hs])
    qed
    let ?hs = "take i hs @ drop (j + ?n) ks"
    have del: "del_head_of_fragment (hs ! i) frags i hs = Inr ?hs"
      using ok drn[of ?n] by (simp add: del_head_of_fragment_eq)
    have rec: "prune_heads_from frags (Suc i) ?hs = Inr final"
      using res True del by (simp add: prune_heads_from.simps[of frags i hs])
    have exs: "examined_from frags i hs = hs ! i # examined_from frags (Suc i) ?hs"
      using True del by (simp add: examined_from.simps[of frags i hs])
    have li: "length (take i hs) = i" using True by simp
    have dS': "drop (Suc i) ?hs = drop (Suc (j + ?n)) ks"
    proof -
      have "drop (Suc i) ?hs = drop (Suc 0) (drop (j + ?n) ks)" using li by simp
      then show ?thesis by simp
    qed
    have tS': "take (Suc i) ?hs = take i hs @ take (Suc 0) (drop (j + ?n) ks)"
      using li by simp
    have sub': "set (take (Suc i) ?hs) \<subseteq> set (take (Suc (j + ?n)) ks)"
    proof
      fix x assume "x \<in> set (take (Suc i) ?hs)"
      then consider "x \<in> set (take i hs)" | "x \<in> set (take (Suc 0) (drop (j + ?n) ks))"
        unfolding tS' by auto
      then show "x \<in> set (take (Suc (j + ?n)) ks)"
      proof cases
        case 1
        then have "x \<in> set (take j ks)" using sub by blast
        then show ?thesis using set_take_subset_set_take[of j "Suc (j + ?n)" ks] by auto
      next
        case 2
        show ?thesis
        proof (cases "j + ?n < length ks")
          case True
          then have "drop (j + ?n) ks = ks ! (j + ?n) # drop (Suc (j + ?n)) ks"
            by (simp add: Cons_nth_drop_Suc)
          with 2 True show ?thesis by (simp add: take_Suc_conv_app_nth)
        next
          case False
          with 2 show ?thesis by simp
        qed
      qed
    qed
    from ex exs consider "k = hs ! i" | "k \<in> set (examined_from frags (Suc i) ?hs)" by auto
    then show ?thesis
    proof cases
      case 1
      then have npos: "0 < ?n" using ch by simp
      have "ks ! j \<notin> set (take j ks)" using distinct_nth_notin_take[OF d jl, of j] by simp
      then have a: "ks ! j \<notin> set (take i hs)" using sub by blast
      have b: "ks ! j \<notin> set (drop (j + ?n) ks)"
        using distinct_nth_notin_drop[OF d jl, of "j + ?n"] npos by simp
      have "k \<notin> set ?hs" using 1 kj a b by simp
      then show ?thesis using prune_heads_from_subset[OF rec] by blast
    next
      case 2
      show ?thesis using "1.IH"[OF True del rec dS' sub' 2 ch] .
    qed
  qed
qed

section \<open>Properties of the reachability loop\<close>

text \<open>
  C5. A call of \<open>traverse_root_children\<close> only appends to \<open>nodes_reachable_from_root\<close>:
  the list it returns starts with the list it was given, so no member is removed and every
  member keeps its position, through every iteration of the loop and in its result. A
  sweep that clears the flag has added nothing and leaves a list closed under the head
  relation: every token with at least one head in the list is in the list. The list the
  loop returns is closed in this sense.
\<close>

theorem traverse_extends_and_closes:
  "(\<exists>ext. fst (traverse_root_children hm nodes keep) = nodes @ ext)
   \<and> (\<forall>n. \<exists>ext. fst (sweeps hm (Suc n) (nodes, True)) = fst (sweeps hm n (nodes, True)) @ ext)
   \<and> (\<exists>ext. search_for_dependents hm nodes True = nodes @ ext)
   \<and> (\<not> snd (traverse_root_children hm nodes True) \<longrightarrow>
        fst (traverse_root_children hm nodes True) = nodes \<and> heads_closed hm nodes)
   \<and> heads_closed hm (search_for_dependents hm nodes True)"
proof (intro conjI allI impI)
  show "\<exists>ext. fst (traverse_root_children hm nodes keep) = nodes @ ext"
    using sweep_extends[of hm nodes] by (auto simp: traverse_fst)
next
  fix n
  obtain r k where st: "sweeps hm n (nodes, True) = (r, k)"
    by (cases "sweeps hm n (nodes, True)")
  have "sweeps hm (Suc n) (nodes, True) = traverse_root_children hm r k"
    using st by (simp add: sweeps_def)
  then show "\<exists>ext. fst (sweeps hm (Suc n) (nodes, True)) = fst (sweeps hm n (nodes, True)) @ ext"
    using sweep_extends[of hm r] st by (auto simp: traverse_fst)
next
  show "\<exists>ext. search_for_dependents hm nodes True = nodes @ ext"
    using search_as_sweeps[of hm nodes] by blast
next
  assume "\<not> snd (traverse_root_children hm nodes True)"
  then have "length (sweep hm nodes) = length nodes" by (simp add: traverse_snd)
  then show "fst (traverse_root_children hm nodes True) = nodes" and "heads_closed hm nodes"
    using sweep_fixed_closed[of hm nodes] by (simp_all add: traverse_fst)
next
  show "heads_closed hm (search_for_dependents hm nodes True)"
    using search_as_sweeps[of hm nodes] by blast
qed


theorem traverse_extends_and_closes_witness:
  "\<not> snd (traverse_root_children head_map1 [''1'', ''2'', ''3''] True)
   \<and> fst (traverse_root_children head_map1 [''1'', ''2'', ''3''] True) = [''1'', ''2'', ''3'']
   \<and> heads_closed head_map1 [''1'', ''2'', ''3'']
   \<and> heads_closed head_map1 (search_for_dependents head_map1 [''1''] True)
   \<and> search_for_dependents head_map1 [''1''] True = [''1'', ''2'', ''3'']"
proof -
  have h: "\<not> snd (traverse_root_children head_map1 [''1'', ''2'', ''3''] True)"
    by code_simp
  have s: "search_for_dependents head_map1 [''1''] True = [''1'', ''2'', ''3'']"
    by code_simp
  show ?thesis
    using traverse_extends_and_closes[of head_map1 "[''1'', ''2'', ''3'']" True]
      traverse_extends_and_closes[of head_map1 "[''1'']" True] h s
    by simp
qed


text \<open>
  C6, as amended. The loop of a sentence whose head map has \<open>N\<close> entries ends after at most
  \<open>max 1 N\<close> calls of \<open>traverse_root_children\<close>: the flag is set before each of them and
  cleared by the last, whose node list is the result of the loop. A call leaves the flag
  set exactly when it has made the list longer.
\<close>

theorem reachability_loop_bound:
  assumes "initial_nodes ri hm = Inr (nodes0, ri1)"
  shows "(\<exists>n. n \<le> max 1 (length hm)
            \<and> sweeps hm n (nodes0, True) = (search_for_dependents hm nodes0 True, False)
            \<and> (\<forall>m<n. snd (sweeps hm m (nodes0, True))))
         \<and> (\<forall>nodes. snd (traverse_root_children hm nodes True)
               = (length nodes < length (fst (traverse_root_children hm nodes True))))"
proof (intro conjI allI)
  fix nodes
  obtain ext where "sweep hm nodes = nodes @ ext" using sweep_extends[of hm nodes] by blast
  then show "snd (traverse_root_children hm nodes True)
               = (length nodes < length (fst (traverse_root_children hm nodes True)))"
    by (auto simp: traverse_snd traverse_fst)
next
  show "\<exists>n. n \<le> max 1 (length hm)
            \<and> sweeps hm n (nodes0, True) = (search_for_dependents hm nodes0 True, False)
            \<and> (\<forall>m<n. snd (sweeps hm m (nodes0, True)))"
  proof (cases "nodes0 = []")
    case True
    then have "sweeps hm (Suc 0) (nodes0, True) = (search_for_dependents hm nodes0 True, False)"
      using search_stable[of hm "[]"] by (simp add: sweep_Nil)
    moreover have "\<forall>m<Suc 0. snd (sweeps hm m (nodes0, True))" by (simp add: sweeps_0)
    ultimately show ?thesis by (intro exI[of _ "Suc 0"]) simp
  next
    case False
    then obtain x where x: "x \<in> set nodes0" by (cases nodes0) auto
    then have xk: "x \<in> fst ` set hm" using initial_nodes_keys[OF assms] by auto
    have "fst ` set hm - set nodes0 \<subset> fst ` set hm" using x xk by blast
    then have "card (fst ` set hm - set nodes0) < card (fst ` set hm)"
      by (intro psubset_card_mono) auto
    moreover have "card (fst ` set hm) \<le> length hm"
      using card_image_le[of "set hm" fst] card_length[of hm] by simp
    ultimately have b: "Suc (card (fst ` set hm - set nodes0)) \<le> max 1 (length hm)" by simp
    obtain n where n: "n \<le> Suc (card (fst ` set hm - set nodes0))"
      "sweeps hm n (nodes0, True) = (search_for_dependents hm nodes0 True, False)"
      "\<forall>m<n. snd (sweeps hm m (nodes0, True))"
      using search_as_sweeps[of hm nodes0] by blast
    from n(1) b have "n \<le> max 1 (length hm)" by simp
    with n(2,3) show ?thesis by blast
  qed
qed


theorem reachability_loop_bound_witness:
  "initial_nodes None head_map1 = Inr ([''1'', ''2''], Some ''1'')
   \<and> (\<exists>n. n \<le> max 1 (length head_map1)
          \<and> sweeps head_map1 n ([''1'', ''2''], True)
              = (search_for_dependents head_map1 [''1'', ''2''] True, False))"
proof -
  have h: "initial_nodes None head_map1 = Inr ([''1'', ''2''], Some ''1'')"
    by code_simp
  show ?thesis using reachability_loop_bound[OF h] h by blast
qed


text \<open>
  The bound \<open>N\<close> itself fails for the empty head map, which a block of comment lines
  gives: after \<open>N = 0\<close> calls the flag is still set, and the loop needs one call to find
  that nothing changes.
\<close>

theorem empty_head_map_needs_a_sweep:
  "ids_to_heads_of [] = Inr []
   \<and> initial_nodes None [] = Inr ([], None)
   \<and> snd (sweeps [] (length ([] :: head_map)) ([], True))
   \<and> sweeps [] 1 ([], True) = (search_for_dependents [] [] True, False)"
  by code_simp

section \<open>Connectivity after the repair\<close>

text \<open>
  C1. The claim is that after \<open>_read\<close> every token id is reachable from \<open>0\<close>, and that in
  the sentence with head map \<open>{1: [0], 2: [1], 3: [5], 4: [3]}\<close> token 3 gets \<open>|0:root\<close>
  appended. The code does neither. In that sentence the only surviving fragment key is
  \<open>5\<close>, which is no token, so the sentence comes back unchanged and token 3 stays
  unreachable. In a sentence of two interleaved two-token cycles, where every head is a
  token, the on-the-fly deletion keeps both keys of one cycle and none of the other, and
  tokens 2 and 4 stay unreachable.
\<close>

theorem repair_leaves_tokens_unreachable:
  "ids_to_heads_of dangling_head_sentence = Inr dangling_head_map
   \<and> process_sentence None dangling_head_sentence = Inr (dangling_head_sentence, Some ''1'')
   \<and> get_field ''deps'' (dangling_head_sentence ! 2) = Inr ''5:obj''
   \<and> \<not> reachable_from_root dangling_head_map ''3''
   \<and> process_sentence None two_cycles_sentence = Inr (two_cycles_repaired, Some ''1'')
   \<and> ids_to_heads_of two_cycles_repaired = Inr two_cycles_repaired_map
   \<and> \<not> reachable_from_root two_cycles_repaired_map ''2''"
proof -
  have "ids_to_heads_of dangling_head_sentence = Inr dangling_head_map" by code_simp
  moreover have "process_sentence None dangling_head_sentence = Inr (dangling_head_sentence, Some ''1'')"
    by code_simp
  moreover have "get_field ''deps'' (dangling_head_sentence ! 2) = Inr ''5:obj''" by code_simp
  moreover have "\<not> reachable_from_root dangling_head_map ''3''"
    using dangling_reach[of dangling_head_map "''3''"] by auto
  moreover have "process_sentence None two_cycles_sentence = Inr (two_cycles_repaired, Some ''1'')"
    by code_simp
  moreover have "ids_to_heads_of two_cycles_repaired = Inr two_cycles_repaired_map" by code_simp
  moreover have "\<not> reachable_from_root two_cycles_repaired_map ''2''"
    using two_cycles_reach[of two_cycles_repaired_map "''2''"] by auto
  ultimately show ?thesis by blast
qed

text \<open>
  C3. The claim is that a token of the reachable set never gets \<open>0:root\<close> appended. In the
  sentence below token 2 is reachable through its head 1 and has a second head, 3, that is
  not; it is listed as unreachable all the same, its head 1 becomes a fragment key, and
  token 1, the root itself, gets a second \<open>0:root\<close>.
\<close>

theorem reachable_token_gets_root_edge:
  "ids_to_heads_of spurious_edge_sentence = Inr spurious_edge_map
   \<and> map_sum id nodes_reachable_from_root (analyse None spurious_edge_map) = Inr [''1'', ''2'']
   \<and> map_sum id unreachable_nodes (analyse None spurious_edge_map) = Inr [''2'', ''3'', ''4'']
   \<and> map_sum id pruned_tree (analyse None spurious_edge_map)
        = Inr [(''1'', [''2'']), (''4'', [''3''])]
   \<and> process_sentence None spurious_edge_sentence = Inr (spurious_edge_repaired, Some ''1'')
   \<and> get_field ''id'' (spurious_edge_repaired ! 0) = Inr ''1''
   \<and> get_field ''deps'' (spurious_edge_sentence ! 0) = Inr ''0:root''
   \<and> get_field ''deps'' (spurious_edge_repaired ! 0) = Inr ''0:root|0:root''"
  by code_simp

text \<open>
  C4. The claim is that a second run of \<open>_read\<close> on its own output changes nothing. On the
  sentence of two interleaved cycles the first run leaves tokens 2 and 4 unreachable, and
  the second run appends \<open>|0:root\<close> to token 2.
\<close>

theorem second_run_appends_again:
  "read_sentences [two_cycles_sentence] = Inr [two_cycles_repaired]
   \<and> read_sentences [two_cycles_repaired] = Inr [two_cycles_repaired_twice]
   \<and> get_field ''deps'' (two_cycles_repaired ! 1) = Inr ''4:conj''
   \<and> get_field ''deps'' (two_cycles_repaired_twice ! 1) = Inr ''4:conj|0:root''
   \<and> two_cycles_repaired_twice \<noteq> two_cycles_repaired"
  by code_simp

section \<open>The count check of head-set extraction\<close>

text \<open>
  C8. The claim is that extraction fails exactly when, with multi-word-token ids discarded
  and placeholder heads dropped, the counts of head lists and ids differ. \<open>clean_eheads\<close>
  skips the element that follows a deletion: for a multi-word token \<open>1-2\<close> followed by a
  token without enhanced head, the second \<open>_\<close> is kept, the counts the code compares agree,
  the assertion passes and \<open>_\<close> becomes a head of token 1.
\<close>

theorem placeholder_head_kept:
  "get_fields ''id'' multiword_sentence = Inr [''1-2'', ''1'', ''2'']
   \<and> get_fields ''deps'' multiword_sentence = Inr [''_'', ''_'', ''0:root'']
   \<and> spec_structural_mismatch [''1-2'', ''1'', ''2''] [''_'', ''_'', ''0:root'']
   \<and> clean_eheads (convert_deps_to_nested_list [''_'', ''_'', ''0:root'']) = Inr [[''_''], [''0'']]
   \<and> ids_to_heads_of multiword_sentence = Inr [(''1'', [''_'']), (''2'', [''0''])]"
  by code_simp

section \<open>What the reattachment changes\<close>

text \<open>
  C9. When \<open>_read\<close> returns a sentence, it has the tokens of the input in the same order.
  In every token the field names, their order and the value of every field other than
  \<open>deps\<close>, the id among them, are those of the input; \<open>deps\<close> is the input's value with
  exactly \<open>|0:root\<close> appended when the id is a key of \<open>pruned_tree\<close>, and the input's value
  otherwise.
\<close>

theorem reattachment_frame:
  assumes "process_sentence ri s = Inr (s', ri')"
  shows "\<exists>hm a. ids_to_heads_of s = Inr hm \<and> analyse ri hm = Inr a \<and> ri' = root_index a
           \<and> length s' = length s
           \<and> (\<forall>i<length s. frame_at (pruned_tree a) (s ! i) (s' ! i))"
proof -
  from process_sentence_Inr[OF assms] obtain hm a where hm: "ids_to_heads_of s = Inr hm"
    and a: "analyse ri hm = Inr a" and e: "add_root_edges (pruned_tree a) s = Inr s'"
    and r: "ri' = root_index a"
    by blast
  from ids_to_heads_of_deps[OF hm] obtain deps where deps: "get_fields ''deps'' s = Inr deps"
    by blast
  note fr = add_root_edges_frame[OF e]
  have "frame_at (pruned_tree a) (s ! i) (s' ! i)" if i: "i < length s" for i
  proof -
    have d: "map_of (s ! i) ''deps'' = Some (deps ! i)" using get_fields_nth[OF deps i] .
    obtain cid d' where c: "map_of (s ! i) ''id'' = Some cid"
      and u: "if cid \<in> fst ` set (pruned_tree a)
              then map_of (s ! i) ''deps'' = Some d' \<and>
                   s' ! i = AList.update ''deps'' (d' @ ''|0:root'') (s ! i)
              else s' ! i = s ! i"
      using fr i by blast
    show ?thesis
    proof (cases "cid \<in> fst ` set (pruned_tree a)")
      case True
      with u d have "s' ! i = AList.update ''deps'' (deps ! i @ ''|0:root'') (s ! i)" by simp
      then show ?thesis using frame_at_update[OF c d True] by simp
    next
      case False
      with u have "s' ! i = s ! i" by simp
      then show ?thesis using frame_at_same[OF c d False] by simp
    qed
  qed
  moreover have "length s' = length s" using fr by simp
  ultimately show ?thesis using hm a r by blast
qed

theorem reattachment_frame_witness:
  "process_sentence None spurious_edge_sentence = Inr (spurious_edge_repaired, Some ''1'')
   \<and> length spurious_edge_repaired = length spurious_edge_sentence
   \<and> frame_at [(''1'', [''2'']), (''4'', [''3''])]
        (spurious_edge_sentence ! 0) (spurious_edge_repaired ! 0)
   \<and> frame_at [(''1'', [''2'']), (''4'', [''3''])]
        (spurious_edge_sentence ! 1) (spurious_edge_repaired ! 1)"
proof -
  have h: "process_sentence None spurious_edge_sentence = Inr (spurious_edge_repaired, Some ''1'')"
    by code_simp
  have m: "ids_to_heads_of spurious_edge_sentence = Inr spurious_edge_map" by code_simp
  have p: "map_sum id pruned_tree (analyse None spurious_edge_map)
             = Inr [(''1'', [''2'']), (''4'', [''3''])]"
    by code_simp
  have l: "(0::nat) < length spurious_edge_sentence" "(1::nat) < length spurious_edge_sentence"
    by (simp_all add: spurious_edge_sentence_def)
  from reattachment_frame[OF h] obtain hm a where
    1: "ids_to_heads_of spurious_edge_sentence = Inr hm" and 2: "analyse None hm = Inr a"
    and 3: "length spurious_edge_repaired = length spurious_edge_sentence"
    and 4: "\<forall>i<length spurious_edge_sentence.
              frame_at (pruned_tree a) (spurious_edge_sentence ! i) (spurious_edge_repaired ! i)"
    by blast
  from 1 m have "hm = spurious_edge_map" by simp
  with 2 p have pa: "pruned_tree a = [(''1'', [''2'']), (''4'', [''3''])]" by simp
  have "frame_at (pruned_tree a) (spurious_edge_sentence ! 0) (spurious_edge_repaired ! 0)"
    using 4 l(1) by blast
  moreover have "frame_at (pruned_tree a) (spurious_edge_sentence ! 1) (spurious_edge_repaired ! 1)"
    using 4 l(2) by blast
  ultimately show ?thesis using h 3 pa by simp
qed

section \<open>The unassigned \<open>root_index\<close>\<close>

text \<open>
  While \<open>root_index\<close> is unassigned, a sentence whose head map has a head but no head
  \<open>0\<close> raises NameError in pass 2; once it is assigned, no sentence does.
\<close>

lemma name_error_when_root_index_unassigned:
  assumes "ids_to_heads_of s = Inr hm"
    and "\<exists>(t, hs) \<in> set hm. hs \<noteq> []"
    and "\<forall>(t, hs) \<in> set hm. ''0'' \<notin> set hs"
  shows "process_sentence None s = Inl NameError
         \<and> (\<forall>r. process_sentence (Some r) s \<noteq> Inl NameError)"
proof (intro conjI allI)
  have r0: "roots_of hm = {}" using assms(3) by (auto simp: roots_of_def)
  have "initial_nodes None hm = Inl NameError"
    using initial_nodes_rootless(1)[OF r0] assms(2) by auto
  then have "analyse None hm = Inl NameError"
    by (simp add: analyse_def reachable_nodes_def)
  then show "process_sentence None s = Inl NameError"
    using assms(1) by (simp add: process_sentence_def)
  fix r
  show "process_sentence (Some r) s \<noteq> Inl NameError"
  proof (cases "analyse (Some r) hm")
    case (Inl e)
    then have "e \<noteq> NameError" using analyse_Some_no_NameError[OF r0, of r] by auto
    then show ?thesis using assms(1) Inl by (simp add: process_sentence_def)
  next
    case (Inr a)
    show ?thesis
    proof (cases "add_root_edges (pruned_tree a) s")
      case (Inl e)
      then have "e = KeyError" using add_root_edges_error by blast
      then show ?thesis using assms(1) Inr Inl by (simp add: process_sentence_def)
    next
      case (Inr s')
      then show ?thesis using assms(1) \<open>analyse (Some r) hm = Inr a\<close>
        by (simp add: process_sentence_def)
    qed
  qed
qed

text \<open>
  C10. The claim is that a sentence whose head map has a head but no head \<open>0\<close> makes
  \<open>_read\<close> raise NameError. Alone, or as the first sentence, the sentence of two tokens
  heading each other does. After a sentence with a root it does not: \<open>root_index\<close> is not
  reset and still holds the id of that sentence's root, pass 2 compares the heads with
  it, both tokens of the cycle are taken for reachable although neither is reachable from
  \<open>0\<close>, and the sentence is returned without any edge to ROOT.
\<close>

theorem stale_root_index_no_error:
  "ids_to_heads_of rootless_sentence = Inr rootless_map
   \<and> read_sentences [rootless_sentence] = Inl NameError
   \<and> process_sentence None chain_sentence = Inr (chain_sentence, Some ''1'')
   \<and> map_sum id nodes_reachable_from_root (analyse (Some ''1'') rootless_map) = Inr [''2'', ''1'']
   \<and> \<not> reachable_from_root rootless_map ''1''
   \<and> \<not> reachable_from_root rootless_map ''2''
   \<and> process_sentence (Some ''1'') rootless_sentence = Inr (rootless_sentence, Some ''1'')
   \<and> read_sentences [chain_sentence, rootless_sentence] = Inr [chain_sentence, rootless_sentence]"
proof -
  have "ids_to_heads_of rootless_sentence = Inr rootless_map
   \<and> read_sentences [rootless_sentence] = Inl NameError
   \<and> process_sentence None chain_sentence = Inr (chain_sentence, Some ''1'')
   \<and> map_sum id nodes_reachable_from_root (analyse (Some ''1'') rootless_map) = Inr [''2'', ''1'']
   \<and> process_sentence (Some ''1'') rootless_sentence = Inr (rootless_sentence, Some ''1'')
   \<and> read_sentences [chain_sentence, rootless_sentence] = Inr [chain_sentence, rootless_sentence]"
    by code_simp
  moreover have "\<not> reachable_from_root rootless_map ''1''"
    using rootless_reach[of rootless_map "''1''"] by auto
  moreover have "\<not> reachable_from_root rootless_map ''2''"
    using rootless_reach[of rootless_map "''2''"] by auto
  ultimately show ?thesis by blast
qed

section \<open>Order of iteration\<close>

text \<open>
  C7. Two head maps with the same \<open>(token_id, head)\<close> pairs, visited in any two orders,
  give the same outcome of the two initialisation passes and the loop, for the same value
  of \<open>root_index\<close> on entry: either both raise the same error, or both return node lists
  with the same members. The members are the closure, under the head relation, of the
  tokens with head \<open>0\<close>; the tokens that pass 2 adds for the last root found are in that
  closure whichever root is last.
\<close>

theorem reachable_set_order_independent:
  assumes "set (edge_pairs hm) = set (edge_pairs hm')"
  shows "map_sum id (set \<circ> fst) (reachable_nodes ri hm)
           = map_sum id (set \<circ> fst) (reachable_nodes ri hm')"
  using assms by (simp add: reachable_nodes_char)

theorem reachable_set_order_independent_witness:
  "set (edge_pairs two_roots_map) = set (edge_pairs two_roots_map_reordered)
   \<and> reachable_nodes None two_roots_map = Inr ([''1'', ''2'', ''3''], Some ''2'')
   \<and> reachable_nodes None two_roots_map_reordered = Inr ([''2'', ''1'', ''3''], Some ''1'')
   \<and> set [''1'', ''2'', ''3''] = set [''2'', ''1'', ''3'' :: string]"
proof -
  have h: "set (edge_pairs two_roots_map) = set (edge_pairs two_roots_map_reordered)"
    by (auto simp: edge_pairs_def two_roots_map_def two_roots_map_reordered_def)
  have a: "reachable_nodes None two_roots_map = Inr ([''1'', ''2'', ''3''], Some ''2'')"
    by code_simp
  have b: "reachable_nodes None two_roots_map_reordered = Inr ([''2'', ''1'', ''3''], Some ''1'')"
    by code_simp
  from reachable_set_order_independent[OF h, of None] a b
  have "set [''1'', ''2'', ''3''] = set [''2'', ''1'', ''3'' :: string]" by simp
  with h a b show ?thesis by blast
qed

section \<open>The collapse pass\<close>

text \<open>
  C2, as amended. When the collapse pass completes, every surviving fragment key, that is
  every key of \<open>pruned_tree\<close>, is a key of \<open>unreachable_head_fragments\<close>, and no surviving
  key that the pass has examined is a child in any fragment of
  \<open>unreachable_head_fragments\<close>, surviving or pruned. The keys the pass examines are the
  values of \<open>head_of_fragment\<close> in its outer loop.
\<close>

theorem examined_survivor_is_no_child:
  assumes "analyse ri hm = Inr a" and "k \<in> fst ` set (pruned_tree a)"
  shows "k \<in> fst ` set (fragments a)
         \<and> (k \<in> set (examined_heads (fragments a)) \<longrightarrow> \<not> is_child (fragments a) k)"
proof -
  let ?ks = "map fst (fragments a)"
  let ?final = "heads_of_fragments a"
  from analyse_Inr[OF assms(1)] obtain nodes where
    fr: "unreachable_head_fragments hm (find_unreachable hm nodes) = Inr (fragments a)"
    and pr: "prune_heads (fragments a) = Inr ?final"
    and pt: "pruned_tree a = populate_pruned_tree (fragments a) ?final"
    by blast
  have d: "distinct ?ks" using unreachable_head_fragments_distinct[OF fr] .
  have run: "prune_heads_from (fragments a) 0 ?ks = Inr ?final"
    using pr by (simp add: prune_heads_def)
  have sub: "set ?final \<subseteq> set ?ks" using prune_heads_from_subset[OF run] .
  have keys: "fst ` set (pruned_tree a) = set ?final"
    using sub by (auto simp: pt populate_pruned_tree_keys)
  have kf: "k \<in> set ?final" using assms(2) keys by simp
  have "k \<in> fst ` set (fragments a)" using kf sub by auto
  moreover have "\<not> is_child (fragments a) k" if e: "k \<in> set (examined_heads (fragments a))"
  proof
    assume "is_child (fragments a) k"
    then have h: "0 < hits (fragments a) k" by (simp add: is_child_hits)
    have e': "k \<in> set (examined_from (fragments a) 0 ?ks)"
      using e by (simp add: examined_heads_def)
    have "k \<notin> set ?final"
      by (rule examined_child_removed[OF d run _ _ e' h, of 0]) simp_all
    with kf show False by simp
  qed
  ultimately show ?thesis by blast
qed

theorem examined_survivor_is_no_child_witness:
  "analyse None spurious_edge_map = Inr spurious_edge_analysis
   \<and> ''1'' \<in> fst ` set (pruned_tree spurious_edge_analysis)
   \<and> ''1'' \<in> fst ` set (fragments spurious_edge_analysis)
   \<and> examined_heads (fragments spurious_edge_analysis) = [''1'', ''3'']
   \<and> \<not> is_child (fragments spurious_edge_analysis) ''1''"
proof -
  have h: "analyse None spurious_edge_map = Inr spurious_edge_analysis" by code_simp
  have k: "''1'' \<in> fst ` set (pruned_tree spurious_edge_analysis)"
    by (simp add: spurious_edge_analysis_def)
  have e: "examined_heads (fragments spurious_edge_analysis) = [''1'', ''3'']" by code_simp
  from examined_survivor_is_no_child[OF h k] h k e show ?thesis by simp
qed

text \<open>
  The claim as stated, for every surviving key, fails where two unreachable tokens head
  each other: both are fragment keys and both are children, the first key is examined and
  deleted, the second is never examined and survives although it is the child of the
  first.
\<close>

theorem surviving_key_is_a_child:
  "analyse None cycle_map = Inr cycle_analysis
   \<and> fragments cycle_analysis = [(''3'', [''2'']), (''2'', [''3''])]
   \<and> examined_heads (fragments cycle_analysis) = [''3'']
   \<and> map fst (pruned_tree cycle_analysis) = [''2'']
   \<and> \<not> fragment_minimal (fragments cycle_analysis) (map fst (pruned_tree cycle_analysis))"
  by code_simp

end
